theory Spec2Isabelle
  imports Main "HOL-Library.Product_Lexorder" "HOL-Library.Multiset"
begin

section \<open>Go strings and the library functions the store calls\<close>

text \<open>
  A Go \<^verbatim>\<open>string\<close> is a sequence of bytes; the store keeps text as UTF-8. It is modelled
  as \<^typ>\<open>string\<close>, whose characters are the 256 byte values, so that \<^term>\<open>length\<close>
  is Go's \<^verbatim>\<open>len\<close> (bytes) and the rune count below is a different number.
\<close>

definition byte :: "char \<Rightarrow> nat" where
  "byte c = of_char c"

definition in_range :: "nat \<Rightarrow> nat \<Rightarrow> nat \<Rightarrow> bool" where
  "in_range lo hi b = (lo \<le> b \<and> b \<le> hi)"

text \<open>
  \<^verbatim>\<open>utf8.RuneCountInString\<close>. The width of the rune at the front of \<open>c # cs\<close> follows the
  decoder of the Go library: an ASCII byte is one rune; a byte that cannot start a sequence
  (\<open>0x80..0xC1\<close>, \<open>0xF5..0xFF\<close>) is one rune of width 1; a start byte announces 2, 3 or 4
  bytes, and when the string is too short or a following byte is outside the accepted range
  the start byte alone counts as one (invalid) rune of width 1.
\<close>

definition rune_width :: "char \<Rightarrow> string \<Rightarrow> nat" where
  "rune_width c cs =
     (let b = byte c in
      if b < 0x80 then 1
      else if b < 0xC2 \<or> 0xF5 \<le> b then 1
      else
        let size = (if b < 0xE0 then 2 else if b < 0xF0 then 3 else 4 :: nat);
            lo = (if b = 0xE0 then 0xA0 else if b = 0xF0 then 0x90 else 0x80);
            hi = (if b = 0xED then 0x9F else if b = 0xF4 then 0x8F else 0xBF)
        in if length cs + 1 < size then 1
           else if \<not> in_range lo hi (byte (cs ! 0)) then 1
           else if size = 2 then 2
           else if \<not> in_range 0x80 0xBF (byte (cs ! 1)) then 1
           else if size = 3 then 3
           else if \<not> in_range 0x80 0xBF (byte (cs ! 2)) then 1
           else 4)"

lemma rune_width_pos: "0 < rune_width c cs"
  by (simp add: rune_width_def Let_def)

function RuneCountInString :: "string \<Rightarrow> nat" where
  "RuneCountInString [] = 0"
| "RuneCountInString (c # cs) = Suc (RuneCountInString (drop (rune_width c cs - 1) cs))"
  by pat_completeness auto
termination
  by (relation "measure length") auto


text \<open>
  White space as \<^verbatim>\<open>unicode.IsSpace\<close> defines it, on the UTF-8 encoding: the ASCII bytes
  \<open>\t \n \v \f \r\<close> and the blank; U+0085 and U+00A0 (two bytes); U+1680, U+2000..U+200A,
  U+2028, U+2029, U+202F, U+205F and U+3000 (three bytes).
\<close>

definition is_space1 :: "nat \<Rightarrow> bool" where
  "is_space1 a = (in_range 0x09 0x0D a \<or> a = 0x20)"

definition is_space2 :: "nat \<Rightarrow> nat \<Rightarrow> bool" where
  "is_space2 a b = (a = 0xC2 \<and> (b = 0x85 \<or> b = 0xA0))"

definition is_space3 :: "nat \<Rightarrow> nat \<Rightarrow> nat \<Rightarrow> bool" where
  "is_space3 a b c =
     (a = 0xE1 \<and> b = 0x9A \<and> c = 0x80
      \<or> a = 0xE2 \<and> b = 0x80 \<and> (in_range 0x80 0x8A c \<or> c = 0xA8 \<or> c = 0xA9 \<or> c = 0xAF)
      \<or> a = 0xE2 \<and> b = 0x81 \<and> c = 0x9F
      \<or> a = 0xE3 \<and> b = 0x80 \<and> c = 0x80)"

text \<open>The number of bytes of the white-space rune a string starts with; 0 when it starts
  with none.\<close>

fun leading_space :: "string \<Rightarrow> nat" where
  "leading_space (a # b # c # _) =
     (if is_space1 (byte a) then 1
      else if is_space2 (byte a) (byte b) then 2
      else if is_space3 (byte a) (byte b) (byte c) then 3 else 0)"
| "leading_space [a, b] =
     (if is_space1 (byte a) then 1 else if is_space2 (byte a) (byte b) then 2 else 0)"
| "leading_space [a] = (if is_space1 (byte a) then 1 else 0)"
| "leading_space [] = 0"

text \<open>The same for the rune a string ends with; the argument is the reversed string, last
  byte first. A white-space rune is read from the end exactly when the string ends with its
  encoding, since the bytes after the first of an encoding never start a rune.\<close>

fun trailing_space :: "string \<Rightarrow> nat" where
  "trailing_space (c # b # a # _) =
     (if is_space1 (byte c) then 1
      else if is_space2 (byte b) (byte c) then 2
      else if is_space3 (byte a) (byte b) (byte c) then 3 else 0)"
| "trailing_space [c, b] =
     (if is_space1 (byte c) then 1 else if is_space2 (byte b) (byte c) then 2 else 0)"
| "trailing_space [c] = (if is_space1 (byte c) then 1 else 0)"
| "trailing_space [] = 0"

lemma leading_space_le: "leading_space s \<le> length s"
  by (induction s rule: leading_space.induct) auto

lemma trailing_space_le: "trailing_space s \<le> length s"
  by (induction s rule: trailing_space.induct) auto

function trimLeft :: "string \<Rightarrow> string" where
  "trimLeft s = (if leading_space s = 0 then s else trimLeft (drop (leading_space s) s))"
  by pat_completeness auto
termination
proof (relation "measure length")
  fix s :: string
  assume "leading_space s \<noteq> 0"
  moreover have "leading_space s \<le> length s" by (rule leading_space_le)
  ultimately show "(drop (leading_space s) s, s) \<in> measure length" by simp
qed simp

function trimRightRev :: "string \<Rightarrow> string" where
  "trimRightRev s = (if trailing_space s = 0 then s else trimRightRev (drop (trailing_space s) s))"
  by pat_completeness auto
termination
proof (relation "measure length")
  fix s :: string
  assume "trailing_space s \<noteq> 0"
  moreover have "trailing_space s \<le> length s" by (rule trailing_space_le)
  ultimately show "(drop (trailing_space s) s, s) \<in> measure length" by simp
qed simp

text \<open>\<^verbatim>\<open>strings.TrimSpace\<close>: all leading and all trailing white space removed.\<close>

definition TrimSpace :: "string \<Rightarrow> string" where
  "TrimSpace s = rev (trimRightRev (rev (trimLeft s)))"

text \<open>
  The Unicode case tables are not part of the repository. \<^verbatim>\<open>strings.ToLower\<close> and
  \<^verbatim>\<open>strings.EqualFold\<close> work bytewise as long as they meet ASCII bytes only, and that
  part is modelled as the library has it; what they do from the first non-ASCII byte on is a
  parameter of the model: \<open>mapLower\<close> stands for \<^verbatim>\<open>strings.Map(unicode.ToLower, s)\<close> and
  \<open>foldRest\<close> for the rune-wise comparison of the two remainders.
\<close>

record unicode =
  mapLower :: "string \<Rightarrow> string"
  foldRest :: "string \<Rightarrow> string \<Rightarrow> bool"

definition is_ascii :: "string \<Rightarrow> bool" where
  "is_ascii s = list_all (\<lambda>c. byte c < 0x80) s"

definition lower_byte :: "char \<Rightarrow> char" where
  "lower_byte c = (if in_range 0x41 0x5A (byte c) then char_of (byte c + 32) else c)"

definition ToLower :: "unicode \<Rightarrow> string \<Rightarrow> string" where
  "ToLower uc s = (if is_ascii s then map lower_byte s else mapLower uc s)"

fun EqualFold :: "unicode \<Rightarrow> string \<Rightarrow> string \<Rightarrow> bool" where
  "EqualFold uc (a # s) (b # t) =
     (if 0x80 \<le> byte a \<or> 0x80 \<le> byte b then foldRest uc (a # s) (b # t)
      else if a = b then EqualFold uc s t
      else
        let lo = min (byte a) (byte b); hi = max (byte a) (byte b)
        in if in_range 0x41 0x5A lo \<and> hi = lo + 32 then EqualFold uc s t else False)"
| "EqualFold uc [] [] = True"
| "EqualFold uc _ _ = False"

text \<open>An instance of the tables for evaluating on ASCII data, where they are not consulted.\<close>

definition ascii_tables :: unicode where
  "ascii_tables = \<lparr>mapLower = map lower_byte, foldRest = (=)\<rparr>"


text \<open>
  \<^verbatim>\<open>strconv.FormatInt(i, 10)\<close> and \<^verbatim>\<open>strconv.ParseInt(s, 10, 64)\<close>. Parsing reports a
  syntax error at the first byte that is no digit and a range error as soon as the value
  leaves 64 bits, whichever the scan meets first.
\<close>

datatype error =
    ErrGroupNameEmpty
  | ErrGroupNameTooLong
  | ErrGroupNameExists
  | ErrGroupNotFound int
  | ErrInvalidGroupID
  | ErrSelectGroup
  | ErrTaskTitleEmpty
  | ErrTaskTitleTooLong
  | ErrTaskContentTooLong
  | ErrInvalidStatus string
  | ErrTaskNotFound int
  | ErrInvalidTaskID
  | SqliteError int
  | ErrNoRows
  | ErrSyntax
  | ErrRange
  | Wrap string error

function digits :: "int \<Rightarrow> string" where
  "digits n = (if n < 10 then [char_of (0x30 + n)] else digits (n div 10) @ [char_of (0x30 + n mod 10)])"
  by pat_completeness auto
termination
  by (relation "measure nat") auto

definition FormatInt :: "int \<Rightarrow> string" where
  "FormatInt i = (if i < 0 then CHR ''-'' # digits (- i) else digits i)"

definition maxUint64 :: int where
  "maxUint64 = 18446744073709551615"

definition maxInt64 :: int where
  "maxInt64 = 9223372036854775807"

fun parseUintLoop :: "int \<Rightarrow> string \<Rightarrow> error + int" where
  "parseUintLoop n [] = Inr n"
| "parseUintLoop n (c # cs) =
     (if \<not> in_range 0x30 0x39 (byte c) then Inl ErrSyntax
      else if maxUint64 div 10 + 1 \<le> n then Inl ErrRange
      else
        let n1 = n * 10 + (int (byte c) - 0x30)
        in if maxUint64 < n1 then Inl ErrRange else parseUintLoop n1 cs)"

definition ParseUint :: "string \<Rightarrow> error + int" where
  "ParseUint s = (if s = [] then Inl ErrSyntax else parseUintLoop 0 s)"

definition ParseInt :: "string \<Rightarrow> error + int" where
  "ParseInt s =
     (case s of
        [] \<Rightarrow> Inl ErrSyntax
      | c # cs \<Rightarrow>
          let neg = (c = CHR ''-'');
              body = (if c = CHR ''+'' \<or> c = CHR ''-'' then cs else s)
          in case ParseUint body of
               Inl e \<Rightarrow> Inl e
             | Inr un \<Rightarrow>
                 if \<not> neg \<and> maxInt64 < un then Inl ErrRange
                 else if neg \<and> maxInt64 + 1 < un then Inl ErrRange
                 else Inr (if neg then - un else un))"

section \<open>The data model (models.go)\<close>

type_synonym Status = string

definition StatusTodo :: Status where "StatusTodo = ''todo''"
definition StatusDoing :: Status where "StatusDoing = ''doing''"
definition StatusDone :: Status where "StatusDone = ''done''"

definition ParseStatus :: "string \<Rightarrow> error + Status" where
  "ParseStatus s =
     (if s = StatusTodo \<or> s = StatusDoing \<or> s = StatusDone then Inr s
      else Inl (ErrInvalidStatus s))"

record Group =
  g_ID :: int
  g_Name :: string
  g_CreatedAt :: int
  g_UpdatedAt :: int

record Task =
  t_ID :: int
  t_GroupID :: int
  t_Title :: string
  t_Content :: string
  t_Status :: Status
  t_Important :: bool
  t_Urgent :: bool
  t_CreatedAt :: int
  t_UpdatedAt :: int

record Settings =
  HideDone :: bool
  AlwaysOnTop :: bool
  ViewMode :: string
  ConciseMode :: bool
  Theme :: string

section \<open>The database behind the store\<close>

text \<open>
  The three tables of \<^verbatim>\<open>migrate\<close>, with the constraints the schema declares. A row of
  \<^verbatim>\<open>groups\<close> has the columns of \<^typ>\<open>Group\<close>; a row of \<^verbatim>\<open>tasks\<close> keeps the status as text
  and the two flags as integers; \<^verbatim>\<open>settings\<close> is a list of key/value rows. Both id columns
  are \<^verbatim>\<open>INTEGER PRIMARY KEY AUTOINCREMENT\<close>: the engine remembers the largest id it ever
  gave out (\<open>groups_seq\<close>, \<open>tasks_seq\<close>) and a new row gets one more than the largest of
  that and the ids in the table. The \<open>journal\<close> lists the statements sent over the
  connection, oldest first: \<open>Exec\<close> for \<^verbatim>\<open>ExecContext\<close> (a write), \<open>Query\<close> for
  \<^verbatim>\<open>QueryContext\<close> and \<^verbatim>\<open>QueryRowContext\<close> (a read).

  The engine is modelled as far as the schema decides its answers: a statement succeeds or
  violates a constraint. Failures of the file or the connection, and the exhaustion of the
  64-bit ids, are outside the model.
\<close>

record task_row =
  r_id :: int
  r_group_id :: int
  r_title :: string
  r_content :: string
  r_status :: string
  r_important :: int
  r_urgent :: int
  r_created_at :: int
  r_updated_at :: int

datatype db_call = Exec string | Query string

record store =
  groups :: "Group list"
  groups_seq :: int
  tasks :: "task_row list"
  tasks_seq :: int
  settings :: "(string \<times> string) list"
  journal :: "db_call list"

definition empty_store :: store where
  "empty_store = \<lparr>groups = [], groups_seq = 0, tasks = [], tasks_seq = 0, settings = [], journal = []\<rparr>"

definition sent :: "db_call \<Rightarrow> store \<Rightarrow> store" where
  "sent c s = s\<lparr>journal := journal s @ [c]\<rparr>"

definition SQLITE_CONSTRAINT_CHECK :: int where "SQLITE_CONSTRAINT_CHECK = 275"
definition SQLITE_CONSTRAINT_FOREIGNKEY :: int where "SQLITE_CONSTRAINT_FOREIGNKEY = 787"
definition SQLITE_CONSTRAINT_UNIQUE :: int where "SQLITE_CONSTRAINT_UNIQUE = 2067"

definition next_rowid :: "int list \<Rightarrow> int \<Rightarrow> int" where
  "next_rowid ids seq = fold max ids seq + 1"

subsection \<open>Statements on \<^verbatim>\<open>groups\<close>\<close>

text \<open>\<^verbatim>\<open>INSERT INTO groups(name, created_at, updated_at) VALUES(?, ?, ?)\<close>; the result
  is the new row's id.\<close>

definition insert_group :: "store \<Rightarrow> string \<Rightarrow> int \<Rightarrow> int \<Rightarrow> store \<times> (error + int)" where
  "insert_group s name created updated =
     (let s1 = sent (Exec ''INSERT INTO groups'') s in
      if name \<in> set (map g_Name (groups s)) then (s1, Inl (SqliteError SQLITE_CONSTRAINT_UNIQUE))
      else
        let newID = next_rowid (map g_ID (groups s)) (groups_seq s)
        in (s1\<lparr>groups := groups s @ [\<lparr>g_ID = newID, g_Name = name, g_CreatedAt = created, g_UpdatedAt = updated\<rparr>],
                groups_seq := newID\<rparr>, Inr newID))"

text \<open>\<^verbatim>\<open>UPDATE groups SET name = ?, updated_at = ? WHERE id = ?\<close>; the result is the
  number of rows affected.\<close>

definition update_group :: "store \<Rightarrow> string \<Rightarrow> int \<Rightarrow> int \<Rightarrow> store \<times> (error + nat)" where
  "update_group s name updated ident =
     (let s1 = sent (Exec ''UPDATE groups'') s;
          hit = filter (\<lambda>g. g_ID g = ident) (groups s)
      in if hit = [] then (s1, Inr 0)
         else if name \<in> set (map g_Name (filter (\<lambda>g. g_ID g \<noteq> ident) (groups s)))
         then (s1, Inl (SqliteError SQLITE_CONSTRAINT_UNIQUE))
         else (s1\<lparr>groups := map (\<lambda>g. if g_ID g = ident then g\<lparr>g_Name := name, g_UpdatedAt := updated\<rparr> else g) (groups s)\<rparr>,
               Inr (length hit)))"

text \<open>\<^verbatim>\<open>DELETE FROM groups WHERE id = ?\<close>, with foreign keys on: the tasks of a deleted
  group go with it (\<^verbatim>\<open>ON DELETE CASCADE\<close>).\<close>

definition delete_group :: "store \<Rightarrow> int \<Rightarrow> store \<times> (error + nat)" where
  "delete_group s ident =
     (let s1 = sent (Exec ''DELETE FROM groups'') s;
          hit = filter (\<lambda>g. g_ID g = ident) (groups s)
      in if hit = [] then (s1, Inr 0)
         else (s1\<lparr>groups := filter (\<lambda>g. g_ID g \<noteq> ident) (groups s),
                  tasks := filter (\<lambda>r. r_group_id r \<noteq> ident) (tasks s)\<rparr>, Inr (length hit)))"

text \<open>\<^verbatim>\<open>SELECT id, name, created_at, updated_at FROM groups WHERE id = ?\<close> and
  \<^verbatim>\<open>SELECT id FROM groups WHERE id = ?\<close>: the first row, if any.\<close>

definition select_group :: "store \<Rightarrow> int \<Rightarrow> store \<times> Group option" where
  "select_group s ident = (sent (Query ''SELECT FROM groups WHERE id'') s, find (\<lambda>g. g_ID g = ident) (groups s))"

definition select_group_id :: "store \<Rightarrow> int \<Rightarrow> store \<times> int option" where
  "select_group_id s ident =
     (sent (Query ''SELECT id FROM groups WHERE id'') s, map_option g_ID (find (\<lambda>g. g_ID g = ident) (groups s)))"

text \<open>\<^verbatim>\<open>SELECT COUNT(1) FROM groups\<close> and \<^verbatim>\<open>SELECT ... FROM groups ORDER BY id\<close>.\<close>

definition count_groups :: "store \<Rightarrow> store \<times> nat" where
  "count_groups s = (sent (Query ''SELECT COUNT(1) FROM groups'') s, length (groups s))"

definition select_groups :: "store \<Rightarrow> store \<times> Group list" where
  "select_groups s = (sent (Query ''SELECT FROM groups ORDER BY id'') s, sort_key g_ID (groups s))"


subsection \<open>Statements on \<^verbatim>\<open>tasks\<close>\<close>

text \<open>The \<^verbatim>\<open>CHECK\<close> constraints of a task row, and its foreign key.\<close>

definition row_checks :: "string \<Rightarrow> int \<Rightarrow> int \<Rightarrow> bool" where
  "row_checks status important urgent =
     ((status = ''todo'' \<or> status = ''doing'' \<or> status = ''done'')
      \<and> (important = 0 \<or> important = 1) \<and> (urgent = 0 \<or> urgent = 1))"

definition has_group :: "store \<Rightarrow> int \<Rightarrow> bool" where
  "has_group s gid = (gid \<in> set (map g_ID (groups s)))"

text \<open>\<^verbatim>\<open>INSERT INTO tasks(group_id, title, content, status, important, urgent,
  created_at, updated_at) VALUES(...)\<close>; the result is the new row's id.\<close>

definition insert_task ::
  "store \<Rightarrow> int \<Rightarrow> string \<Rightarrow> string \<Rightarrow> string \<Rightarrow> int \<Rightarrow> int \<Rightarrow> int \<Rightarrow> int \<Rightarrow> store \<times> (error + int)" where
  "insert_task s gid title content status important urgent created updated =
     (let s1 = sent (Exec ''INSERT INTO tasks'') s in
      if \<not> row_checks status important urgent then (s1, Inl (SqliteError SQLITE_CONSTRAINT_CHECK))
      else if \<not> has_group s gid then (s1, Inl (SqliteError SQLITE_CONSTRAINT_FOREIGNKEY))
      else
        let newID = next_rowid (map r_id (tasks s)) (tasks_seq s)
        in (s1\<lparr>tasks := tasks s @
                  [\<lparr>r_id = newID, r_group_id = gid, r_title = title, r_content = content,
                    r_status = status, r_important = important, r_urgent = urgent,
                    r_created_at = created, r_updated_at = updated\<rparr>],
                tasks_seq := newID\<rparr>, Inr newID))"

text \<open>\<^verbatim>\<open>UPDATE tasks SET group_id = ?, title = ?, content = ?, status = ?, important = ?,
  urgent = ?, updated_at = ? WHERE id = ?\<close>; the result is the number of rows affected.\<close>

definition update_task ::
  "store \<Rightarrow> int \<Rightarrow> string \<Rightarrow> string \<Rightarrow> string \<Rightarrow> int \<Rightarrow> int \<Rightarrow> int \<Rightarrow> int \<Rightarrow> store \<times> (error + nat)" where
  "update_task s gid title content status important urgent updated ident =
     (let s1 = sent (Exec ''UPDATE tasks'') s;
          hit = filter (\<lambda>r. r_id r = ident) (tasks s)
      in if hit = [] then (s1, Inr 0)
         else if \<not> row_checks status important urgent then (s1, Inl (SqliteError SQLITE_CONSTRAINT_CHECK))
         else if \<not> has_group s gid then (s1, Inl (SqliteError SQLITE_CONSTRAINT_FOREIGNKEY))
         else (s1\<lparr>tasks := map (\<lambda>r. if r_id r = ident
                                     then r\<lparr>r_group_id := gid, r_title := title, r_content := content,
                                            r_status := status, r_important := important,
                                            r_urgent := urgent, r_updated_at := updated\<rparr>
                                     else r) (tasks s)\<rparr>,
               Inr (length hit)))"

text \<open>\<^verbatim>\<open>DELETE FROM tasks WHERE id = ?\<close>.\<close>

definition delete_task :: "store \<Rightarrow> int \<Rightarrow> store \<times> (error + nat)" where
  "delete_task s ident =
     (let s1 = sent (Exec ''DELETE FROM tasks'') s;
          hit = filter (\<lambda>r. r_id r = ident) (tasks s)
      in if hit = [] then (s1, Inr 0)
         else (s1\<lparr>tasks := filter (\<lambda>r. r_id r \<noteq> ident) (tasks s)\<rparr>, Inr (length hit)))"

text \<open>\<^verbatim>\<open>SELECT ... FROM tasks WHERE id = ?\<close> and
  \<^verbatim>\<open>SELECT ... FROM tasks ORDER BY updated_at DESC, id DESC\<close>: sorting ascending on the
  pair of the negated columns, ordered lexicographically.\<close>

definition select_task :: "store \<Rightarrow> int \<Rightarrow> store \<times> task_row option" where
  "select_task s ident = (sent (Query ''SELECT FROM tasks WHERE id'') s, find (\<lambda>r. r_id r = ident) (tasks s))"

definition order_key :: "task_row \<Rightarrow> int \<times> int" where
  "order_key r = (- r_updated_at r, - r_id r)"

definition select_tasks :: "store \<Rightarrow> store \<times> task_row list" where
  "select_tasks s =
     (sent (Query ''SELECT FROM tasks ORDER BY updated_at DESC, id DESC'') s, sort_key order_key (tasks s))"

subsection \<open>Statements on \<^verbatim>\<open>settings\<close>\<close>

text \<open>\<^verbatim>\<open>INSERT OR IGNORE INTO settings(key, value) VALUES(?, ?)\<close>: a row with that key
  stays as it is.\<close>

definition insert_or_ignore_setting :: "store \<Rightarrow> string \<Rightarrow> string \<Rightarrow> store \<times> (error + unit)" where
  "insert_or_ignore_setting s k v =
     (let s1 = sent (Exec ''INSERT OR IGNORE INTO settings'') s in
      if k \<in> set (map fst (settings s)) then (s1, Inr ())
      else (s1\<lparr>settings := settings s @ [(k, v)]\<rparr>, Inr ()))"

text \<open>\<^verbatim>\<open>INSERT INTO settings(key, value) VALUES(?, ?) ON CONFLICT(key) DO UPDATE SET
  value = excluded.value\<close>.\<close>

definition upsert_setting :: "store \<Rightarrow> string \<Rightarrow> string \<Rightarrow> store \<times> (error + unit)" where
  "upsert_setting s k v =
     (let s1 = sent (Exec ''INSERT INTO settings ON CONFLICT DO UPDATE'') s in
      if k \<in> set (map fst (settings s))
      then (s1\<lparr>settings := map (\<lambda>(k', v'). if k' = k then (k', v) else (k', v')) (settings s)\<rparr>, Inr ())
      else (s1\<lparr>settings := settings s @ [(k, v)]\<rparr>, Inr ()))"

text \<open>\<^verbatim>\<open>SELECT key, value FROM settings\<close> and
  \<^verbatim>\<open>SELECT value FROM settings WHERE key = ?\<close>.\<close>

definition select_settings :: "store \<Rightarrow> store \<times> (string \<times> string) list" where
  "select_settings s = (sent (Query ''SELECT key, value FROM settings'') s, settings s)"

definition select_setting :: "store \<Rightarrow> string \<Rightarrow> store \<times> string option" where
  "select_setting s k = (sent (Query ''SELECT value FROM settings WHERE key'') s, map_of (settings s) k)"

section \<open>The store (the operations of \<^verbatim>\<open>Store\<close>)\<close>

text \<open>
  Every operation takes the store and gives back the store after it, with what the Go
  function returns: \<open>error + 'a\<close> for a value and an error, \<open>error option\<close> for an error
  alone. The reading of the clock, \<^verbatim>\<open>time.Now().UnixMilli()\<close>, is the argument \<open>now\<close>.
\<close>

definition maxGroupNameRunes :: nat where "maxGroupNameRunes = 50"
definition maxTaskTitleRunes :: nat where "maxTaskTitleRunes = 200"
definition maxTaskContentRunes :: nat where "maxTaskContentRunes = 1000"
definition maxViewModeRunes :: nat where "maxViewModeRunes = 20"

text \<open>\<^verbatim>\<open>errors.As\<close> looks through the wrappers of \<^verbatim>\<open>fmt.Errorf("...: %w", err)\<close>.\<close>

fun sqliteIsConstraint :: "error \<Rightarrow> int \<Rightarrow> bool" where
  "sqliteIsConstraint (SqliteError c) code = (c = code)"
| "sqliteIsConstraint (Wrap _ e) code = sqliteIsConstraint e code"
| "sqliteIsConstraint _ code = False"

definition boolTo01 :: "bool \<Rightarrow> string" where
  "boolTo01 b = (if b then ''1'' else ''0'')"

definition boolTo01Int :: "bool \<Rightarrow> int" where
  "boolTo01Int b = (if b then 1 else 0)"

definition normalizeViewMode :: "unicode \<Rightarrow> string \<Rightarrow> string" where
  "normalizeViewMode uc v0 =
     (let v = TrimSpace (ToLower uc v0) in
      if maxViewModeRunes < RuneCountInString v then ''cards''
      else if v = ''list'' \<or> v = ''cards'' then v
      else ''cards'')"

text \<open>The name of the default group: the two runes U+9ED8 U+8BA4 ("default"), six bytes.\<close>

definition defaultName :: string where
  "defaultName = [CHR 0xE9, CHR 0xBB, CHR 0x98, CHR 0xE8, CHR 0xAE, CHR 0xA4]"

definition ensureDefaultGroup :: "int \<Rightarrow> store \<Rightarrow> store \<times> error option" where
  "ensureDefaultGroup now s =
     (case count_groups s of
        (s1, cnt) \<Rightarrow>
          if 0 < cnt then (s1, None)
          else (case insert_group s1 defaultName now now of
                  (s2, Inl e) \<Rightarrow> (s2, Some (Wrap ''create default group'' e))
                | (s2, Inr _) \<Rightarrow> (s2, None)))"

text \<open>The loop of \<^verbatim>\<open>ensureDefaultSettings\<close> ranges over a Go map, in no fixed order; the
  keys are distinct, so the order decides nothing but the order of the rows.\<close>

definition defaults :: "(string \<times> string) list" where
  "defaults = [(''alwaysOnTop'', ''1''), (''hideDone'', ''0''), (''viewMode'', ''cards''), (''conciseMode'', ''0'')]"

fun initSettings :: "store \<Rightarrow> (string \<times> string) list \<Rightarrow> store \<times> error option" where
  "initSettings s [] = (s, None)"
| "initSettings s ((k, v) # kvs) =
     (case insert_or_ignore_setting s k v of
        (s1, Inl e) \<Rightarrow> (s1, Some (Wrap ''init settings'' e))
      | (s1, Inr _) \<Rightarrow> initSettings s1 kvs)"

definition ensureDefaultSettings :: "store \<Rightarrow> store \<times> error option" where
  "ensureDefaultSettings s = initSettings s defaults"

text \<open>\<^verbatim>\<open>Open\<close>, after the schema is in place: the two bootstrap steps, in the order of the
  source. The argument is the content of the database file.\<close>

definition Open :: "int \<Rightarrow> store \<Rightarrow> store \<times> error option" where
  "Open now s =
     (case ensureDefaultSettings s of
        (s1, Some e) \<Rightarrow> (s1, Some e)
      | (s1, None) \<Rightarrow> ensureDefaultGroup now s1)"

definition ListGroups :: "store \<Rightarrow> store \<times> (error + Group list)" where
  "ListGroups s = (case select_groups s of (s1, rows) \<Rightarrow> (s1, Inr rows))"

definition UpsertGroup :: "int \<Rightarrow> store \<Rightarrow> int \<Rightarrow> string \<Rightarrow> store \<times> (error + Group)" where
  "UpsertGroup now s ident name0 =
     (let name = TrimSpace name0 in
      if name = [] then (s, Inl ErrGroupNameEmpty)
      else if maxGroupNameRunes < RuneCountInString name then (s, Inl ErrGroupNameTooLong)
      else if ident = 0 then
        (case insert_group s name now now of
           (s1, Inl e) \<Rightarrow>
             if sqliteIsConstraint e SQLITE_CONSTRAINT_UNIQUE then (s1, Inl ErrGroupNameExists)
             else (s1, Inl (Wrap ''create group'' e))
         | (s1, Inr newID) \<Rightarrow>
             (s1, Inr \<lparr>g_ID = newID, g_Name = name, g_CreatedAt = now, g_UpdatedAt = now\<rparr>))
      else
        (case update_group s name now ident of
           (s1, Inl e) \<Rightarrow>
             if sqliteIsConstraint e SQLITE_CONSTRAINT_UNIQUE then (s1, Inl ErrGroupNameExists)
             else (s1, Inl (Wrap ''update group'' e))
         | (s1, Inr affected) \<Rightarrow>
             if affected = 0 then (s1, Inl (ErrGroupNotFound ident))
             else (case select_group s1 ident of
                     (s2, None) \<Rightarrow> (s2, Inl (Wrap ''reload group'' ErrNoRows))
                   | (s2, Some g) \<Rightarrow> (s2, Inr g))))"

definition DeleteGroup :: "store \<Rightarrow> int \<Rightarrow> store \<times> error option" where
  "DeleteGroup s ident =
     (if ident \<le> 0 then (s, Some ErrInvalidGroupID)
      else (case delete_group s ident of
              (s1, Inl e) \<Rightarrow> (s1, Some (Wrap ''delete group'' e))
            | (s1, Inr affected) \<Rightarrow>
                if affected = 0 then (s1, Some (ErrGroupNotFound ident)) else (s1, None)))"


text \<open>What \<^verbatim>\<open>ListTasks\<close> and \<^verbatim>\<open>UpsertTask\<close> make of a scanned row whose status parsed.\<close>

definition scanned :: "task_row \<Rightarrow> Status \<Rightarrow> Task" where
  "scanned r parsed =
     \<lparr>t_ID = r_id r, t_GroupID = r_group_id r, t_Title = r_title r, t_Content = r_content r,
      t_Status = parsed, t_Important = (r_important r = 1), t_Urgent = (r_urgent r = 1),
      t_CreatedAt = r_created_at r, t_UpdatedAt = r_updated_at r\<rparr>"

fun scanTasks :: "task_row list \<Rightarrow> error + Task list" where
  "scanTasks [] = Inr []"
| "scanTasks (r # rows) =
     (case ParseStatus (r_status r) of
        Inl e \<Rightarrow> Inl (Wrap ''parse task status'' e)
      | Inr parsed \<Rightarrow>
          (case scanTasks rows of
             Inl e \<Rightarrow> Inl e
           | Inr out \<Rightarrow> Inr (scanned r parsed # out)))"

definition ListTasks :: "store \<Rightarrow> store \<times> (error + Task list)" where
  "ListTasks s = (case select_tasks s of (s1, rows) \<Rightarrow> (s1, scanTasks rows))"

definition groupExists :: "store \<Rightarrow> int \<Rightarrow> store \<times> (error + bool)" where
  "groupExists s groupID =
     (case select_group_id s groupID of
        (s1, None) \<Rightarrow> (s1, Inr False)
      | (s1, Some _) \<Rightarrow> (s1, Inr True))"

definition UpsertTask :: "int \<Rightarrow> store \<Rightarrow> Task \<Rightarrow> store \<times> (error + Task)" where
  "UpsertTask now s req0 =
     (let req = req0\<lparr>t_Title := TrimSpace (t_Title req0), t_Content := TrimSpace (t_Content req0)\<rparr> in
      if t_GroupID req \<le> 0 then (s, Inl ErrSelectGroup)
      else
        (case groupExists s (t_GroupID req) of
           (s1, Inl e) \<Rightarrow> (s1, Inl e)
         | (s1, Inr ok) \<Rightarrow>
             if \<not> ok then (s1, Inl (ErrGroupNotFound (t_GroupID req)))
             else if t_Title req = [] then (s1, Inl ErrTaskTitleEmpty)
             else if maxTaskTitleRunes < RuneCountInString (t_Title req) then (s1, Inl ErrTaskTitleTooLong)
             else if maxTaskContentRunes < RuneCountInString (t_Content req) then (s1, Inl ErrTaskContentTooLong)
             else
               (case ParseStatus (t_Status req) of
                  Inl e \<Rightarrow> (s1, Inl e)
                | Inr _ \<Rightarrow>
                    if t_ID req = 0 then
                      (case insert_task s1 (t_GroupID req) (t_Title req) (t_Content req) (t_Status req)
                              (boolTo01Int (t_Important req)) (boolTo01Int (t_Urgent req)) now now of
                         (s2, Inl e) \<Rightarrow> (s2, Inl (Wrap ''create task'' e))
                       | (s2, Inr newID) \<Rightarrow>
                           (s2, Inr (req\<lparr>t_ID := newID, t_CreatedAt := now, t_UpdatedAt := now\<rparr>)))
                    else
                      (case update_task s1 (t_GroupID req) (t_Title req) (t_Content req) (t_Status req)
                              (boolTo01Int (t_Important req)) (boolTo01Int (t_Urgent req)) now (t_ID req) of
                         (s2, Inl e) \<Rightarrow> (s2, Inl (Wrap ''update task'' e))
                       | (s2, Inr affected) \<Rightarrow>
                           if affected = 0 then (s2, Inl (ErrTaskNotFound (t_ID req)))
                           else
                             (case select_task s2 (t_ID req) of
                                (s3, None) \<Rightarrow> (s3, Inl (Wrap ''reload task'' ErrNoRows))
                              | (s3, Some r) \<Rightarrow>
                                  (case ParseStatus (r_status r) of
                                     Inl e \<Rightarrow> (s3, Inl (Wrap ''parse task status'' e))
                                   | Inr parsed \<Rightarrow> (s3, Inr (scanned r parsed))))))))"

definition DeleteTask :: "store \<Rightarrow> int \<Rightarrow> store \<times> error option" where
  "DeleteTask s ident =
     (if ident \<le> 0 then (s, Some ErrInvalidTaskID)
      else (case delete_task s ident of
              (s1, Inl e) \<Rightarrow> (s1, Some (Wrap ''delete task'' e))
            | (s1, Inr affected) \<Rightarrow>
                if affected = 0 then (s1, Some (ErrTaskNotFound ident)) else (s1, None)))"

text \<open>The body of the loop of \<^verbatim>\<open>GetSettings\<close>: one row overlays one field; a key that is
  none of the four is ignored.\<close>

definition isTrue :: "unicode \<Rightarrow> string \<Rightarrow> bool" where
  "isTrue uc v = (v = ''1'' \<or> EqualFold uc v ''true'')"

definition overlay :: "unicode \<Rightarrow> Settings \<Rightarrow> string \<times> string \<Rightarrow> Settings" where
  "overlay uc st row =
     (case row of
        (k, v) \<Rightarrow>
          if k = ''alwaysOnTop'' then st\<lparr>AlwaysOnTop := isTrue uc v\<rparr>
          else if k = ''hideDone'' then st\<lparr>HideDone := isTrue uc v\<rparr>
          else if k = ''viewMode'' then st\<lparr>ViewMode := normalizeViewMode uc v\<rparr>
          else if k = ''conciseMode'' then st\<lparr>ConciseMode := isTrue uc v\<rparr>
          else st)"

definition defaultSettings :: Settings where
  "defaultSettings = \<lparr>HideDone = False, AlwaysOnTop = True, ViewMode = ''cards'', ConciseMode = False, Theme = []\<rparr>"

definition GetSettings :: "unicode \<Rightarrow> store \<Rightarrow> store \<times> (error + Settings)" where
  "GetSettings uc s =
     (case select_settings s of (s1, rows) \<Rightarrow> (s1, Inr (foldl (overlay uc) defaultSettings rows)))"

definition setSetting :: "store \<Rightarrow> string \<Rightarrow> string \<Rightarrow> store \<times> error option" where
  "setSetting s k v =
     (case upsert_setting s k v of
        (s1, Inl e) \<Rightarrow> (s1, Some (Wrap ''set setting'' e))
      | (s1, Inr _) \<Rightarrow> (s1, None))"

definition SetSettings :: "unicode \<Rightarrow> store \<Rightarrow> Settings \<Rightarrow> store \<times> error option" where
  "SetSettings uc s st =
     (case setSetting s ''alwaysOnTop'' (boolTo01 (AlwaysOnTop st)) of
        (s1, Some e) \<Rightarrow> (s1, Some e)
      | (s1, None) \<Rightarrow>
     (case setSetting s1 ''hideDone'' (boolTo01 (HideDone st)) of
        (s2, Some e) \<Rightarrow> (s2, Some e)
      | (s2, None) \<Rightarrow>
     (case setSetting s2 ''viewMode'' (normalizeViewMode uc (ViewMode st)) of
        (s3, Some e) \<Rightarrow> (s3, Some e)
      | (s3, None) \<Rightarrow>
     (case setSetting s3 ''conciseMode'' (boolTo01 (ConciseMode st)) of
        (s4, Some e) \<Rightarrow> (s4, Some e)
      | (s4, None) \<Rightarrow> (s4, None)))))"

definition GetLastWaterReminderAt :: "store \<Rightarrow> store \<times> (error + int)" where
  "GetLastWaterReminderAt s =
     (case select_setting s ''lastWaterReminderAt'' of
        (s1, None) \<Rightarrow> (s1, Inr 0)
      | (s1, Some value0) \<Rightarrow>
          let v = TrimSpace value0 in
          if v = [] then (s1, Inr 0)
          else (case ParseInt v of
                  Inl e \<Rightarrow> (s1, Inl (Wrap ''parse lastWaterReminderAt'' e))
                | Inr ts \<Rightarrow> if ts \<le> 0 then (s1, Inr 0) else (s1, Inr ts)))"

definition SetLastWaterReminderAt :: "store \<Rightarrow> int \<Rightarrow> store \<times> error option" where
  "SetLastWaterReminderAt s unixMilli =
     setSetting s ''lastWaterReminderAt'' (FormatInt (if unixMilli \<le> 0 then 0 else unixMilli))"

text \<open>The stores the application can be in: a new file, and what any operation leaves.\<close>

inductive reachable :: "store \<Rightarrow> bool" where
  r_new: "reachable empty_store"
| r_Open: "reachable s \<Longrightarrow> reachable (fst (Open now s))"
| r_ListGroups: "reachable s \<Longrightarrow> reachable (fst (ListGroups s))"
| r_UpsertGroup: "reachable s \<Longrightarrow> reachable (fst (UpsertGroup now s ident name))"
| r_DeleteGroup: "reachable s \<Longrightarrow> reachable (fst (DeleteGroup s ident))"
| r_ListTasks: "reachable s \<Longrightarrow> reachable (fst (ListTasks s))"
| r_UpsertTask: "reachable s \<Longrightarrow> reachable (fst (UpsertTask now s req))"
| r_DeleteTask: "reachable s \<Longrightarrow> reachable (fst (DeleteTask s ident))"
| r_GetSettings: "reachable s \<Longrightarrow> reachable (fst (GetSettings uc s))"
| r_SetSettings: "reachable s \<Longrightarrow> reachable (fst (SetSettings uc s st))"
| r_GetLast: "reachable s \<Longrightarrow> reachable (fst (GetLastWaterReminderAt s))"
| r_SetLast: "reachable s \<Longrightarrow> reachable (fst (SetLastWaterReminderAt s unixMilli))"

text \<open>What the tables hold, without the journal.\<close>

definition content :: "store \<Rightarrow> Group list \<times> int \<times> task_row list \<times> int \<times> (string \<times> string) list" where
  "content s = (groups s, groups_seq s, tasks s, tasks_seq s, settings s)"

text \<open>The statements an operation sent: what the journal gained.\<close>

definition issued :: "store \<Rightarrow> store \<Rightarrow> db_call list" where
  "issued s s' = drop (length (journal s)) (journal s')"

fun is_write :: "db_call \<Rightarrow> bool" where
  "is_write (Exec _) = True"
| "is_write (Query _) = False"

section \<open>Facts about the settings table\<close>

lemma overlay_pair:
  "overlay uc st (k, v) =
     (if k = ''alwaysOnTop'' then st\<lparr>AlwaysOnTop := isTrue uc v\<rparr>
      else if k = ''hideDone'' then st\<lparr>HideDone := isTrue uc v\<rparr>
      else if k = ''viewMode'' then st\<lparr>ViewMode := normalizeViewMode uc v\<rparr>
      else if k = ''conciseMode'' then st\<lparr>ConciseMode := isTrue uc v\<rparr>
      else st)"
  by (simp add: overlay_def)

text \<open>With one row per key, the loop of \<^verbatim>\<open>GetSettings\<close> gives every field the value of its
  row, and leaves the fields without a row as they were.\<close>

definition overlaid :: "unicode \<Rightarrow> Settings \<Rightarrow> (string \<times> string) list \<Rightarrow> Settings" where
  "overlaid uc st rows =
     \<lparr>HideDone = (case map_of rows ''hideDone'' of None \<Rightarrow> HideDone st | Some v \<Rightarrow> isTrue uc v),
      AlwaysOnTop = (case map_of rows ''alwaysOnTop'' of None \<Rightarrow> AlwaysOnTop st | Some v \<Rightarrow> isTrue uc v),
      ViewMode = (case map_of rows ''viewMode'' of None \<Rightarrow> ViewMode st | Some v \<Rightarrow> normalizeViewMode uc v),
      ConciseMode = (case map_of rows ''conciseMode'' of None \<Rightarrow> ConciseMode st | Some v \<Rightarrow> isTrue uc v),
      Theme = Theme st\<rparr>"

lemma overlaid_Nil: "overlaid uc st [] = st"
  by (simp add: overlaid_def)

lemma overlaid_Cons:
  assumes "k \<notin> fst ` set rows"
  shows "overlaid uc (overlay uc st (k, v)) rows = overlaid uc st ((k, v) # rows)"
proof -
  from assms have n: "map_of rows k = None" by (simp add: map_of_eq_None_iff)
  consider (a) "k = ''alwaysOnTop''" | (h) "k = ''hideDone''" | (v) "k = ''viewMode''"
    | (c) "k = ''conciseMode''"
    | (other) "k \<noteq> ''alwaysOnTop''" "k \<noteq> ''hideDone''" "k \<noteq> ''viewMode''" "k \<noteq> ''conciseMode''"
    by blast
  then show ?thesis
  proof cases
    case a
    with n show ?thesis by (simp add: overlaid_def overlay_pair split: option.split)
  next
    case h
    with n show ?thesis by (simp add: overlaid_def overlay_pair split: option.split)
  next
    case v
    with n show ?thesis by (simp add: overlaid_def overlay_pair split: option.split)
  next
    case c
    with n show ?thesis by (simp add: overlaid_def overlay_pair split: option.split)
  next
    case other
    then show ?thesis by (simp add: overlaid_def overlay_pair split: option.split)
  qed
qed

lemma foldl_overlay:
  "distinct (map fst rows) \<Longrightarrow> foldl (overlay uc) st rows = overlaid uc st rows"
proof (induction rows arbitrary: st)
  case Nil
  show ?case by (simp add: overlaid_Nil)
next
  case (Cons row rows)
  obtain k v where row: "row = (k, v)" by (cases row)
  from Cons.prems row have k: "k \<notin> fst ` set rows" and d: "distinct (map fst rows)" by auto
  have "foldl (overlay uc) st (row # rows) = foldl (overlay uc) (overlay uc st (k, v)) rows"
    by (simp add: row)
  also have "\<dots> = overlaid uc (overlay uc st (k, v)) rows" by (rule Cons.IH [OF d])
  also have "\<dots> = overlaid uc st (row # rows)" using overlaid_Cons [OF k] by (simp add: row)
  finally show ?case .
qed

lemma GetSettings_eq:
  "distinct (map fst (settings s)) \<Longrightarrow>
   snd (GetSettings uc s) = Inr (overlaid uc defaultSettings (settings s))"
  by (simp add: GetSettings_def select_settings_def foldl_overlay)

lemma rc_list: "RuneCountInString ''list'' = 4"
  by code_simp

lemma normalize_cases:
  "normalizeViewMode uc v = (if TrimSpace (ToLower uc v) = ''list'' then ''list'' else ''cards'')"
  by (auto simp add: normalizeViewMode_def Let_def rc_list maxViewModeRunes_def simp del: RuneCountInString.simps)

lemma normalize_list: "normalizeViewMode uc ''list'' = ''list''"
  by code_simp

lemma normalize_cards: "normalizeViewMode uc ''cards'' = ''cards''"
  by code_simp

lemma normalize_full:
  "normalizeViewMode uc w =
     (if w = ''list'' \<or> w = ''cards'' then w
      else if TrimSpace (ToLower uc w) = ''list'' then ''list'' else ''cards'')"
  using normalize_cases [of uc w] normalize_list [of uc] normalize_cards [of uc] by auto

lemma map_of_replace_other:
  "k' \<noteq> k \<Longrightarrow> map_of (map (\<lambda>(a, b). if a = k then (a, v) else (a, b)) xs) k' = map_of xs k'"
  by (induction xs) (auto simp del: map_of_append)

lemma map_of_replace_same:
  "k \<in> fst ` set xs \<Longrightarrow> map_of (map (\<lambda>(a, b). if a = k then (a, v) else (a, b)) xs) k = Some v"
  by (induction xs) (auto simp del: map_of_append)

lemma map_of_append_new:
  "k \<notin> fst ` set xs \<Longrightarrow> map_of (xs @ [(k, v)]) k' = (if k' = k then Some v else map_of xs k')"
  by (induction xs) (auto simp del: map_of_append)

lemma map_of_upsert:
  "map_of (settings (fst (upsert_setting s k v))) k' = (if k' = k then Some v else map_of (settings s) k')"
proof (cases "k \<in> fst ` set (settings s)")
  case True
  then have "settings (fst (upsert_setting s k v)) = map (\<lambda>(a, b). if a = k then (a, v) else (a, b)) (settings s)"
    by (simp add: upsert_setting_def Let_def sent_def)
  then show ?thesis using True by (simp add: map_of_replace_other map_of_replace_same)
next
  case False
  then have "settings (fst (upsert_setting s k v)) = settings s @ [(k, v)]"
    by (simp add: upsert_setting_def Let_def sent_def)
  then show ?thesis using False by (simp add: map_of_append_new del: map_of_append)
qed

lemma setSetting_fst: "fst (setSetting s k v) = fst (upsert_setting s k v)"
  by (cases "upsert_setting s k v") (auto simp add: setSetting_def split: sum.splits)

lemma setSetting_None: "snd (setSetting s k v) = None"
  by (simp add: setSetting_def upsert_setting_def Let_def)

lemma setSetting_eq: "setSetting s k v = (fst (upsert_setting s k v), None)"
  using setSetting_fst [of s k v] setSetting_None [of s k v] by (metis prod.collapse)

lemma map_of_setSetting:
  "map_of (settings (fst (setSetting s k v))) k' = (if k' = k then Some v else map_of (settings s) k')"
  by (simp add: setSetting_fst map_of_upsert)

lemma SetSettings_eq:
  "SetSettings uc s st =
     (fst (setSetting (fst (setSetting (fst (setSetting (fst (setSetting s
         ''alwaysOnTop'' (boolTo01 (AlwaysOnTop st))))
         ''hideDone'' (boolTo01 (HideDone st))))
         ''viewMode'' (normalizeViewMode uc (ViewMode st))))
         ''conciseMode'' (boolTo01 (ConciseMode st))), None)"
  by (simp add: SetSettings_def setSetting_eq)

lemma SetSettings_viewMode:
  "map_of (settings (fst (SetSettings uc s st))) ''viewMode'' = Some (normalizeViewMode uc (ViewMode st))"
  by (simp add: SetSettings_eq map_of_setSetting)

section \<open>C1: the view mode read from and written to the settings\<close>

definition stored_LIST :: store where
  "stored_LIST = empty_store\<lparr>settings := [(''viewMode'', ''LIST'')]\<rparr>"

text \<open>
  C1, as stated, fails: a stored view mode that is neither \<open>list\<close> nor \<open>cards\<close> does not
  always read as \<open>cards\<close>. The stored value \<open>LIST\<close> is neither of the two, and
  \<^verbatim>\<open>GetSettings\<close> returns \<open>list\<close> for it; \<^verbatim>\<open>SetSettings\<close> with the view mode \<open>LIST\<close>
  stores \<open>list\<close>.
\<close>

theorem C1_counterexample:
  "''LIST'' \<noteq> ''list'' \<and> ''LIST'' \<noteq> ''cards''
   \<and> snd (GetSettings ascii_tables stored_LIST) = Inr (defaultSettings\<lparr>ViewMode := ''list''\<rparr>)
   \<and> ''list'' \<noteq> ''cards''
   \<and> map_of (settings (fst (SetSettings ascii_tables stored_LIST (defaultSettings\<lparr>ViewMode := ''LIST''\<rparr>))))
        ''viewMode'' = Some ''list''"
  by code_simp

text \<open>
  C1, amended: with one row per key (the primary key of \<^verbatim>\<open>settings\<close>), \<^verbatim>\<open>GetSettings\<close>
  returns a stored view mode unchanged when it is exactly \<open>list\<close> or \<open>cards\<close>; any other
  stored value is lower-cased and trimmed, and reads as \<open>list\<close> when that gives \<open>list\<close>
  and as \<open>cards\<close> in every other case. \<^verbatim>\<open>SetSettings\<close> stores the view mode it is given
  under the same normalization.
\<close>

theorem C1_viewMode:
  assumes "distinct (map fst (settings s))" and "(''viewMode'', v) \<in> set (settings s)"
  shows "(\<exists>st. snd (GetSettings uc s) = Inr st \<and>
            ViewMode st = (if v = ''list'' \<or> v = ''cards'' then v
                           else if TrimSpace (ToLower uc v) = ''list'' then ''list'' else ''cards''))
         \<and> map_of (settings (fst (SetSettings uc s st'))) ''viewMode''
             = Some (if ViewMode st' = ''list'' \<or> ViewMode st' = ''cards'' then ViewMode st'
                     else if TrimSpace (ToLower uc (ViewMode st')) = ''list'' then ''list'' else ''cards'')"
proof -
  from assms have "map_of (settings s) ''viewMode'' = Some v" by simp
  then have "ViewMode (overlaid uc defaultSettings (settings s)) = normalizeViewMode uc v"
    by (simp add: overlaid_def)
  with GetSettings_eq [OF assms(1), of uc]
  have 1: "\<exists>st. snd (GetSettings uc s) = Inr st \<and> ViewMode st = normalizeViewMode uc v"
    by blast
  have 2: "map_of (settings (fst (SetSettings uc s st'))) ''viewMode'' = Some (normalizeViewMode uc (ViewMode st'))"
    by (rule SetSettings_viewMode)
  from 1 [unfolded normalize_full] 2 [unfolded normalize_full] show ?thesis by (rule conjI)
qed

theorem C1_viewMode_witness:
  "distinct (map fst (settings stored_LIST)) \<and> (''viewMode'', ''LIST'') \<in> set (settings stored_LIST)
   \<and> (\<exists>st. snd (GetSettings ascii_tables stored_LIST) = Inr st \<and> ViewMode st = ''list'')
   \<and> map_of (settings (fst (SetSettings ascii_tables stored_LIST (defaultSettings\<lparr>ViewMode := '' grid''\<rparr>)))) ''viewMode''
       = Some ''cards''"
proof -
  have d: "distinct (map fst (settings stored_LIST))" by code_simp
  have m: "(''viewMode'', ''LIST'') \<in> set (settings stored_LIST)" by code_simp
  have t: "TrimSpace (ToLower ascii_tables ''LIST'') = ''list''" by code_simp
  have g: "TrimSpace (ToLower ascii_tables '' grid'') = ''grid''" by code_simp
  have v: "ViewMode (defaultSettings\<lparr>ViewMode := '' grid''\<rparr>) = '' grid''" by simp
  from C1_viewMode [OF d m, of ascii_tables "defaultSettings\<lparr>ViewMode := '' grid''\<rparr>"] d m
  show ?thesis unfolding t g v by simp
qed

section \<open>C9: the boolean settings\<close>

lemma byte_inj: "byte a = byte b \<longleftrightarrow> a = b"
  by (simp add: byte_def)

lemma byte_char_of: "n < 256 \<Longrightarrow> byte (char_of n) = n"
  by (simp add: byte_def)

lemma lower_byte_eq:
  assumes "byte a < 0x80" "byte b < 0x80"
  shows "(lower_byte a = lower_byte b) =
         (a = b \<or> in_range 0x41 0x5A (min (byte a) (byte b)) \<and> max (byte a) (byte b) = min (byte a) (byte b) + 32)"
proof -
  have "byte (lower_byte c) = (if in_range 0x41 0x5A (byte c) then byte c + 32 else byte c)" if "byte c < 0x80" for c
    using that by (simp add: lower_byte_def byte_char_of in_range_def)
  with assms have "byte (lower_byte a) = byte (lower_byte b) \<longleftrightarrow>
         (byte a = byte b \<or> in_range 0x41 0x5A (min (byte a) (byte b)) \<and> max (byte a) (byte b) = min (byte a) (byte b) + 32)"
    by (auto simp add: in_range_def min_def max_def)
  then show ?thesis by (simp add: byte_inj)
qed

text \<open>On ASCII strings \<^verbatim>\<open>EqualFold\<close> is equality of the lower-cased strings.\<close>

lemma EqualFold_ascii:
  "is_ascii s \<Longrightarrow> is_ascii t \<Longrightarrow> EqualFold uc s t = (map lower_byte s = map lower_byte t)"
proof (induction uc s t rule: EqualFold.induct)
  case (1 uc a s b t)
  then have a: "byte a < 0x80" and b: "byte b < 0x80" and s: "is_ascii s" and t: "is_ascii t"
    by (simp_all add: is_ascii_def)
  show ?case
  proof (cases "a = b")
    case True
    with 1 a b s t show ?thesis by simp
  next
    case False
    show ?thesis
    proof (cases "in_range 0x41 0x5A (min (byte a) (byte b)) \<and> max (byte a) (byte b) = min (byte a) (byte b) + 32")
      case True
      with 1 a b s t False lower_byte_eq [OF a b] show ?thesis by (simp add: Let_def)
    next
      case no: False
      with a b False lower_byte_eq [OF a b] show ?thesis by (auto simp add: Let_def)
    qed
  qed
qed simp_all

lemma lower_true: "map lower_byte ''true'' = ''true''"
  by code_simp

lemma ascii_true: "is_ascii ''true''"
  by code_simp

lemma EqualFold_true: "is_ascii v \<Longrightarrow> EqualFold uc v ''true'' = (map lower_byte v = ''true'')"
  using EqualFold_ascii [of v "''true''" uc] ascii_true unfolding lower_true by simp

text \<open>
  C9: with one row per key, a stored row of \<open>alwaysOnTop\<close>, \<open>hideDone\<close> or \<open>conciseMode\<close>
  reads as true exactly when its value is \<open>1\<close> or equals \<open>true\<close> under \<^verbatim>\<open>EqualFold\<close>; on an
  ASCII value that comparison is equality with \<open>true\<close> after lower-casing; the values \<open>0\<close>,
  \<open>yes\<close> and \<open>true\<close> behind a blank read as false.
\<close>

theorem C9_boolean_settings:
  assumes "distinct (map fst (settings s))"
  shows "(\<exists>st. snd (GetSettings uc s) = Inr st
            \<and> (\<forall>v. (''alwaysOnTop'', v) \<in> set (settings s) \<longrightarrow>
                   AlwaysOnTop st = (v = ''1'' \<or> EqualFold uc v ''true''))
            \<and> (\<forall>v. (''hideDone'', v) \<in> set (settings s) \<longrightarrow>
                   HideDone st = (v = ''1'' \<or> EqualFold uc v ''true''))
            \<and> (\<forall>v. (''conciseMode'', v) \<in> set (settings s) \<longrightarrow>
                   ConciseMode st = (v = ''1'' \<or> EqualFold uc v ''true'')))
         \<and> (is_ascii w \<longrightarrow> EqualFold uc w ''true'' = (map lower_byte w = ''true''))
         \<and> \<not> (''0'' = ''1'' \<or> EqualFold uc ''0'' ''true'')
         \<and> \<not> (''yes'' = ''1'' \<or> EqualFold uc ''yes'' ''true'')
         \<and> \<not> ('' true'' = ''1'' \<or> EqualFold uc '' true'' ''true'')"
proof -
  let ?st = "overlaid uc defaultSettings (settings s)"
  have g: "snd (GetSettings uc s) = Inr ?st" by (rule GetSettings_eq [OF assms])
  have a: "AlwaysOnTop ?st = (v = ''1'' \<or> EqualFold uc v ''true'')"
    if "(''alwaysOnTop'', v) \<in> set (settings s)" for v
  proof -
    from assms that have "map_of (settings s) ''alwaysOnTop'' = Some v" by simp
    then show ?thesis by (simp add: overlaid_def isTrue_def)
  qed
  have h: "HideDone ?st = (v = ''1'' \<or> EqualFold uc v ''true'')"
    if "(''hideDone'', v) \<in> set (settings s)" for v
  proof -
    from assms that have "map_of (settings s) ''hideDone'' = Some v" by simp
    then show ?thesis by (simp add: overlaid_def isTrue_def)
  qed
  have c: "ConciseMode ?st = (v = ''1'' \<or> EqualFold uc v ''true'')"
    if "(''conciseMode'', v) \<in> set (settings s)" for v
  proof -
    from assms that have "map_of (settings s) ''conciseMode'' = Some v" by simp
    then show ?thesis by (simp add: overlaid_def isTrue_def)
  qed
  have 1: "\<exists>st. snd (GetSettings uc s) = Inr st
            \<and> (\<forall>v. (''alwaysOnTop'', v) \<in> set (settings s) \<longrightarrow>
                   AlwaysOnTop st = (v = ''1'' \<or> EqualFold uc v ''true''))
            \<and> (\<forall>v. (''hideDone'', v) \<in> set (settings s) \<longrightarrow>
                   HideDone st = (v = ''1'' \<or> EqualFold uc v ''true''))
            \<and> (\<forall>v. (''conciseMode'', v) \<in> set (settings s) \<longrightarrow>
                   ConciseMode st = (v = ''1'' \<or> EqualFold uc v ''true''))"
    using g a h c by blast
  have 2: "is_ascii w \<longrightarrow> EqualFold uc w ''true'' = (map lower_byte w = ''true'')"
    by (simp add: EqualFold_true)
  have 3: "\<not> (''0'' = ''1'' \<or> EqualFold uc ''0'' ''true'')"
    by (simp add: byte_def in_range_def)
  have 4: "\<not> (''yes'' = ''1'' \<or> EqualFold uc ''yes'' ''true'')"
    by (simp add: byte_def in_range_def)
  have 5: "\<not> ('' true'' = ''1'' \<or> EqualFold uc '' true'' ''true'')"
    by (simp add: byte_def in_range_def)
  from 1 2 3 4 5 show ?thesis by (intro conjI)
qed

definition stored_flags :: store where
  "stored_flags = empty_store\<lparr>settings :=
     [(''alwaysOnTop'', ''TRUE''), (''hideDone'', '' true''), (''conciseMode'', ''yes'')]\<rparr>"

theorem C9_boolean_settings_witness:
  "distinct (map fst (settings stored_flags))
   \<and> (\<exists>st. snd (GetSettings ascii_tables stored_flags) = Inr st
          \<and> AlwaysOnTop st \<and> \<not> HideDone st \<and> \<not> ConciseMode st)
   \<and> is_ascii ''True'' \<and> EqualFold ascii_tables ''True'' ''true''"
proof -
  have d: "distinct (map fst (settings stored_flags))" by code_simp
  have m: "(''alwaysOnTop'', ''TRUE'') \<in> set (settings stored_flags)"
    "(''hideDone'', '' true'') \<in> set (settings stored_flags)"
    "(''conciseMode'', ''yes'') \<in> set (settings stored_flags)" by code_simp+
  have e: "EqualFold ascii_tables ''TRUE'' ''true''" "\<not> EqualFold ascii_tables '' true'' ''true''"
    "\<not> EqualFold ascii_tables ''yes'' ''true''" by code_simp+
  have t: "is_ascii ''True''" "map lower_byte ''True'' = ''true''" by code_simp+
  note c9 = C9_boolean_settings [OF d, of ascii_tables "''True''"]
  from c9 have w: "is_ascii ''True'' \<longrightarrow> EqualFold ascii_tables ''True'' ''true'' = (map lower_byte ''True'' = ''true'')"
    by (elim conjE)
  from c9 obtain st where st: "snd (GetSettings ascii_tables stored_flags) = Inr st"
    and a: "\<forall>v. (''alwaysOnTop'', v) \<in> set (settings stored_flags) \<longrightarrow>
               AlwaysOnTop st = (v = ''1'' \<or> EqualFold ascii_tables v ''true'')"
    and h: "\<forall>v. (''hideDone'', v) \<in> set (settings stored_flags) \<longrightarrow>
               HideDone st = (v = ''1'' \<or> EqualFold ascii_tables v ''true'')"
    and c: "\<forall>v. (''conciseMode'', v) \<in> set (settings stored_flags) \<longrightarrow>
               ConciseMode st = (v = ''1'' \<or> EqualFold ascii_tables v ''true'')"
    by (elim conjE exE)
  from a [rule_format, OF m(1)] e(1) have 1: "AlwaysOnTop st" by simp
  from h [rule_format, OF m(2)] e(2) have 2: "\<not> HideDone st" by simp
  from c [rule_format, OF m(3)] e(3) have 3: "\<not> ConciseMode st" by simp
  from w t have 4: "EqualFold ascii_tables ''True'' ''true''" by simp
  from st 1 2 3 have "\<exists>st. snd (GetSettings ascii_tables stored_flags) = Inr st
          \<and> AlwaysOnTop st \<and> \<not> HideDone st \<and> \<not> ConciseMode st" by (intro exI conjI)
  with d t(1) 4 show ?thesis by (intro conjI)
qed

section \<open>Facts about the conversions of integers\<close>

declare digits.simps [simp del] trimLeft.simps [simp del] trimRightRev.simps [simp del]







lemma leading_space_ascii: "byte c < 0x80 \<Longrightarrow> \<not> is_space1 (byte c) \<Longrightarrow> leading_space (c # cs) = 0"
  by (cases cs rule: leading_space.cases) (auto simp add: is_space2_def is_space3_def)

lemma trailing_space_ascii: "byte c < 0x80 \<Longrightarrow> \<not> is_space1 (byte c) \<Longrightarrow> trailing_space (c # cs) = 0"
  by (cases cs rule: trailing_space.cases) (auto simp add: is_space2_def is_space3_def in_range_def)









section \<open>C8: the time of the last reminder\<close>





section \<open>What every reachable store satisfies\<close>

text \<open>
  What the schema and the operations keep true of the tables: the ids of each table are
  distinct and positive, the group names are distinct, non-empty and within the limit, the
  status of every task is one of the three, the counters of the ids are not negative, and
  the settings have one row per key.
\<close>

definition valid_name :: "string \<Rightarrow> bool" where
  "valid_name n = (n \<noteq> [] \<and> RuneCountInString n \<le> maxGroupNameRunes)"

definition valid_status :: "string \<Rightarrow> bool" where
  "valid_status x = (x = ''todo'' \<or> x = ''doing'' \<or> x = ''done'')"

definition store_inv :: "store \<Rightarrow> bool" where
  "store_inv s =
     (distinct (map g_ID (groups s)) \<and> distinct (map g_Name (groups s))
      \<and> list_all (\<lambda>g. 0 < g_ID g \<and> valid_name (g_Name g)) (groups s)
      \<and> 0 \<le> groups_seq s
      \<and> distinct (map r_id (tasks s))
      \<and> list_all (\<lambda>r. 0 < r_id r \<and> valid_status (r_status r)) (tasks s)
      \<and> 0 \<le> tasks_seq s
      \<and> distinct (map fst (settings s)))"

lemma store_inv_sent [simp]: "store_inv (sent c s) = store_inv s"
  by (simp add: store_inv_def sent_def)

lemma fold_max_ge: "seq \<le> fold max ids seq \<and> (\<forall>x\<in>set ids. x \<le> fold max ids (seq :: int))"
proof (induction ids arbitrary: seq)
  case Nil
  show ?case by simp
next
  case (Cons a ids)
  from Cons [of "max a seq"] show ?case by auto
qed

lemma next_rowid_gt: "seq < next_rowid ids seq" "x \<in> set ids \<Longrightarrow> x < next_rowid ids seq"
  using fold_max_ge [of seq ids] by (auto simp add: next_rowid_def)

lemma next_rowid_fresh: "next_rowid ids seq \<notin> set ids"
  using next_rowid_gt(2) [of "next_rowid ids seq" ids seq] by auto

lemma insert_group_inv:
  assumes "insert_group s n c u = (s', r)" "store_inv s" "valid_name n"
  shows "store_inv s'"
proof (cases "n \<in> set (map g_Name (groups s))")
  case True
  with assms(1) have "s' = sent (Exec ''INSERT INTO groups'') s" by (simp add: insert_group_def Let_def)
  with assms(2) show ?thesis by simp
next
  case False
  let ?i = "next_rowid (map g_ID (groups s)) (groups_seq s)"
  from False assms(1) have s': "s' = (sent (Exec ''INSERT INTO groups'') s)\<lparr>groups := groups s @ [\<lparr>g_ID = ?i, g_Name = n, g_CreatedAt = c, g_UpdatedAt = u\<rparr>], groups_seq := ?i\<rparr>"
    by (simp add: insert_group_def Let_def)
  have f: "?i \<notin> set (map g_ID (groups s))" by (rule next_rowid_fresh)
  from assms(2) have "0 \<le> groups_seq s" by (simp add: store_inv_def)
  with next_rowid_gt(1) [of "groups_seq s" "map g_ID (groups s)"] have p: "0 < ?i" by simp
  from assms(2,3) False f p show ?thesis unfolding s' by (simp add: store_inv_def sent_def)
qed

lemma map_update_ids: "map g_ID (map (\<lambda>g. if g_ID g = i then g\<lparr>g_Name := n, g_UpdatedAt := u\<rparr> else g) gs) = map g_ID gs"
  by (induction gs) simp_all

lemma map_update_names:
  "distinct (map g_Name gs) \<Longrightarrow> n \<notin> set (map g_Name (filter (\<lambda>g. g_ID g \<noteq> i) gs)) \<Longrightarrow> distinct (map g_ID gs) \<Longrightarrow>
   distinct (map g_Name (map (\<lambda>g. if g_ID g = i then g\<lparr>g_Name := n, g_UpdatedAt := u\<rparr> else g) gs))"
proof (induction gs)
  case Nil
  show ?case by simp
next
  case (Cons g gs)
  show ?case
  proof (cases "g_ID g = i")
    case True
    with Cons.prems have ne: "\<forall>h\<in>set gs. g_ID h \<noteq> i" by (auto simp add: image_iff)
    then have m: "map (\<lambda>g. if g_ID g = i then g\<lparr>g_Name := n, g_UpdatedAt := u\<rparr> else g) gs = gs"
      by (induction gs) simp_all
    from ne have f: "filter (\<lambda>g. g_ID g \<noteq> i) gs = gs" by (simp add: filter_id_conv)
    from Cons.prems(2) True have "n \<notin> set (map g_Name (filter (\<lambda>g. g_ID g \<noteq> i) gs))" by simp
    then have "n \<notin> set (map g_Name gs)" unfolding f .
    with True Cons.prems(1) show ?thesis by (simp add: m)
  next
    case False
    have "g_Name g \<notin> set (map g_Name (map (\<lambda>g. if g_ID g = i then g\<lparr>g_Name := n, g_UpdatedAt := u\<rparr> else g) gs))"
    proof
      assume "g_Name g \<in> set (map g_Name (map (\<lambda>g. if g_ID g = i then g\<lparr>g_Name := n, g_UpdatedAt := u\<rparr> else g) gs))"
      then obtain h where h: "h \<in> set gs" "g_Name g = g_Name (if g_ID h = i then h\<lparr>g_Name := n, g_UpdatedAt := u\<rparr> else h)"
        by auto
      show False
      proof (cases "g_ID h = i")
        case True
        with h have "g_Name g = n" by simp
        with False Cons.prems(2) show False by simp
      next
        case no: False
        with h have "g_Name g = g_Name h" by simp
        with h(1) Cons.prems(1) show False by auto
      qed
    qed
    moreover from Cons.prems False have "distinct (map g_Name (map (\<lambda>g. if g_ID g = i then g\<lparr>g_Name := n, g_UpdatedAt := u\<rparr> else g) gs))"
      by (intro Cons.IH) auto
    ultimately show ?thesis using False by simp
  qed
qed

lemma update_group_inv:
  assumes "update_group s n u i = (s', r)" "store_inv s" "valid_name n"
  shows "store_inv s'"
proof -
  consider (none) "filter (\<lambda>g. g_ID g = i) (groups s) = []"
    | (dup) "filter (\<lambda>g. g_ID g = i) (groups s) \<noteq> []" "n \<in> set (map g_Name (filter (\<lambda>g. g_ID g \<noteq> i) (groups s)))"
    | (ok) "filter (\<lambda>g. g_ID g = i) (groups s) \<noteq> []" "n \<notin> set (map g_Name (filter (\<lambda>g. g_ID g \<noteq> i) (groups s)))"
    by blast
  then show ?thesis
  proof cases
    case none
    with assms(1) have "s' = sent (Exec ''UPDATE groups'') s" by (simp add: update_group_def Let_def)
    with assms(2) show ?thesis by simp
  next
    case dup
    with assms(1) have "s' = sent (Exec ''UPDATE groups'') s" by (simp add: update_group_def Let_def)
    with assms(2) show ?thesis by simp
  next
    case ok
    with assms(1) have s': "s' = (sent (Exec ''UPDATE groups'') s)\<lparr>groups := map (\<lambda>g. if g_ID g = i then g\<lparr>g_Name := n, g_UpdatedAt := u\<rparr> else g) (groups s)\<rparr>"
      by (simp add: update_group_def Let_def)
    from assms(2) have d: "distinct (map g_Name (groups s))" "distinct (map g_ID (groups s))"
      by (simp_all add: store_inv_def)
    have l: "list_all (\<lambda>g. 0 < g_ID g \<and> valid_name (g_Name g)) (map (\<lambda>g. if g_ID g = i then g\<lparr>g_Name := n, g_UpdatedAt := u\<rparr> else g) (groups s))"
      using assms(2,3) by (auto simp add: store_inv_def list_all_iff)
    from assms(2) map_update_names [OF d(1) ok(2) d(2), of u] l show ?thesis
      unfolding s' by (simp add: store_inv_def sent_def map_update_ids del: map_map)
  qed
qed


lemma delete_group_inv:
  assumes "delete_group s i = (s', r)" "store_inv s"
  shows "store_inv s'"
proof (cases "filter (\<lambda>g. g_ID g = i) (groups s) = []")
  case True
  with assms(1) have "s' = sent (Exec ''DELETE FROM groups'') s" by (simp add: delete_group_def Let_def)
  with assms(2) show ?thesis by simp
next
  case False
  with assms(1) have s': "s' = (sent (Exec ''DELETE FROM groups'') s)\<lparr>groups := filter (\<lambda>g. g_ID g \<noteq> i) (groups s),
                  tasks := filter (\<lambda>r. r_group_id r \<noteq> i) (tasks s)\<rparr>"
    by (simp add: delete_group_def Let_def)
  from assms(2) show ?thesis
    unfolding s' by (simp add: store_inv_def sent_def distinct_map_filter list_all_iff)
qed

lemma insert_task_inv:
  assumes "insert_task s gid title body status important urgent c u = (s', r)" "store_inv s"
  shows "store_inv s'"
proof (cases "row_checks status important urgent \<and> has_group s gid")
  case False
  with assms(1) have "s' = sent (Exec ''INSERT INTO tasks'') s"
    by (auto simp add: insert_task_def Let_def split: if_splits)
  with assms(2) show ?thesis by simp
next
  case True
  let ?i = "next_rowid (map r_id (tasks s)) (tasks_seq s)"
  from True assms(1) have s': "s' = (sent (Exec ''INSERT INTO tasks'') s)\<lparr>tasks := tasks s @
                  [\<lparr>r_id = ?i, r_group_id = gid, r_title = title, r_content = body,
                    r_status = status, r_important = important, r_urgent = urgent,
                    r_created_at = c, r_updated_at = u\<rparr>],
                tasks_seq := ?i\<rparr>"
    by (simp add: insert_task_def Let_def)
  have f: "?i \<notin> set (map r_id (tasks s))" by (rule next_rowid_fresh)
  from assms(2) have "0 \<le> tasks_seq s" by (simp add: store_inv_def)
  with next_rowid_gt(1) [of "tasks_seq s" "map r_id (tasks s)"] have p: "0 < ?i" by simp
  from True have "valid_status status" by (simp add: row_checks_def valid_status_def)
  with assms(2) f p show ?thesis unfolding s' by (simp add: store_inv_def sent_def)
qed

lemma update_task_inv:
  assumes "update_task s gid title body status important urgent u i = (s', r)" "store_inv s"
  shows "store_inv s'"
proof (cases "filter (\<lambda>r. r_id r = i) (tasks s) \<noteq> [] \<and> row_checks status important urgent \<and> has_group s gid")
  case False
  with assms(1) have "s' = sent (Exec ''UPDATE tasks'') s"
    by (auto simp add: update_task_def Let_def split: if_splits)
  with assms(2) show ?thesis by simp
next
  case True
  let ?f = "\<lambda>r. if r_id r = i
                                     then r\<lparr>r_group_id := gid, r_title := title, r_content := body,
                                            r_status := status, r_important := important,
                                            r_urgent := urgent, r_updated_at := u\<rparr>
                                     else r"
  from True assms(1) have s': "s' = (sent (Exec ''UPDATE tasks'') s)\<lparr>tasks := map ?f (tasks s)\<rparr>"
    by (simp add: update_task_def Let_def)
  have m: "map r_id (map ?f rs) = map r_id rs" for rs by (induction rs) simp_all
  from True have "valid_status status" by (simp add: row_checks_def valid_status_def)
  with assms(2) have l: "list_all (\<lambda>r. 0 < r_id r \<and> valid_status (r_status r)) (map ?f (tasks s))"
    by (auto simp add: store_inv_def list_all_iff)
  from assms(2) l show ?thesis
    unfolding s' by (simp add: store_inv_def sent_def m del: map_map)
qed

lemma delete_task_inv:
  assumes "delete_task s i = (s', r)" "store_inv s"
  shows "store_inv s'"
proof (cases "filter (\<lambda>r. r_id r = i) (tasks s) = []")
  case True
  with assms(1) have "s' = sent (Exec ''DELETE FROM tasks'') s" by (simp add: delete_task_def Let_def)
  with assms(2) show ?thesis by simp
next
  case False
  with assms(1) have s': "s' = (sent (Exec ''DELETE FROM tasks'') s)\<lparr>tasks := filter (\<lambda>r. r_id r \<noteq> i) (tasks s)\<rparr>"
    by (simp add: delete_task_def Let_def)
  from assms(2) show ?thesis
    unfolding s' by (simp add: store_inv_def sent_def distinct_map_filter list_all_iff)
qed

lemma replace_keys: "map fst (map (\<lambda>(a, b). if a = k then (a, v) else (a, b)) xs) = map fst xs"
  by (induction xs) auto

lemma upsert_setting_inv:
  assumes "upsert_setting s k v = (s', r)" "store_inv s"
  shows "store_inv s'"
proof (cases "k \<in> set (map fst (settings s))")
  case True
  with assms(1) have s': "s' = (sent (Exec ''INSERT INTO settings ON CONFLICT DO UPDATE'') s)\<lparr>settings := map (\<lambda>(a, b). if a = k then (a, v) else (a, b)) (settings s)\<rparr>"
    by (simp add: upsert_setting_def Let_def)
  from assms(2) show ?thesis unfolding s' by (simp add: store_inv_def sent_def replace_keys del: map_map)
next
  case False
  with assms(1) have s': "s' = (sent (Exec ''INSERT INTO settings ON CONFLICT DO UPDATE'') s)\<lparr>settings := settings s @ [(k, v)]\<rparr>"
    by (simp add: upsert_setting_def Let_def)
  from assms(2) False show ?thesis unfolding s' by (simp add: store_inv_def sent_def)
qed

lemma insert_or_ignore_setting_inv:
  assumes "insert_or_ignore_setting s k v = (s', r)" "store_inv s"
  shows "store_inv s'"
proof (cases "k \<in> set (map fst (settings s))")
  case True
  with assms(1) have "s' = sent (Exec ''INSERT OR IGNORE INTO settings'') s"
    by (simp add: insert_or_ignore_setting_def Let_def)
  with assms(2) show ?thesis by simp
next
  case False
  with assms(1) have s': "s' = (sent (Exec ''INSERT OR IGNORE INTO settings'') s)\<lparr>settings := settings s @ [(k, v)]\<rparr>"
    by (simp add: insert_or_ignore_setting_def Let_def)
  from assms(2) False show ?thesis unfolding s' by (simp add: store_inv_def sent_def)
qed


lemma valid_defaultName: "valid_name defaultName"
  by code_simp

lemma initSettings_inv: "store_inv s \<Longrightarrow> store_inv (fst (initSettings s kvs))"
proof (induction kvs arbitrary: s)
  case Nil
  then show ?case by simp
next
  case (Cons kv kvs)
  obtain k v where kv: "kv = (k, v)" by (cases kv)
  obtain s1 r where i: "insert_or_ignore_setting s k v = (s1, r)" by (cases "insert_or_ignore_setting s k v")
  from insert_or_ignore_setting_inv [OF i Cons.prems] have s1: "store_inv s1" .
  show ?case
  proof (cases r)
    case (Inl e)
    with i kv s1 show ?thesis by simp
  next
    case (Inr u)
    with i kv Cons.IH [OF s1] show ?thesis by simp
  qed
qed

lemma ensureDefaultGroup_inv:
  assumes "store_inv s"
  shows "store_inv (fst (ensureDefaultGroup now s))"
proof (cases "0 < length (groups s)")
  case True
  with assms show ?thesis by (simp add: ensureDefaultGroup_def count_groups_def)
next
  case False
  let ?s1 = "sent (Query ''SELECT COUNT(1) FROM groups'') s"
  obtain s2 r where i: "insert_group ?s1 defaultName now now = (s2, r)"
    by (cases "insert_group ?s1 defaultName now now")
  from assms have "store_inv ?s1" by simp
  from insert_group_inv [OF i this valid_defaultName] have "store_inv s2" .
  moreover from False i have "fst (ensureDefaultGroup now s) = s2"
    by (cases r) (simp_all add: ensureDefaultGroup_def count_groups_def)
  ultimately show ?thesis by simp
qed

lemma Open_inv:
  assumes "store_inv s"
  shows "store_inv (fst (Open now s))"
proof -
  obtain s1 r where e: "ensureDefaultSettings s = (s1, r)" by (cases "ensureDefaultSettings s")
  from initSettings_inv [OF assms, of defaults] e have s1: "store_inv s1"
    by (simp add: ensureDefaultSettings_def)
  show ?thesis
  proof (cases r)
    case None
    with e ensureDefaultGroup_inv [OF s1, of now] show ?thesis by (simp add: Open_def)
  next
    case (Some err)
    with e s1 show ?thesis by (simp add: Open_def)
  qed
qed

lemma UpsertGroup_inv:
  assumes "store_inv s"
  shows "store_inv (fst (UpsertGroup now s i name))"
proof (cases "TrimSpace name = [] \<or> maxGroupNameRunes < RuneCountInString (TrimSpace name)")
  case True
  with assms show ?thesis by (auto simp add: UpsertGroup_def Let_def)
next
  case False
  then have v: "valid_name (TrimSpace name)" by (simp add: valid_name_def)
  show ?thesis
  proof (cases "i = 0")
    case True
    obtain s1 r where ins: "insert_group s (TrimSpace name) now now = (s1, r)"
      by (cases "insert_group s (TrimSpace name) now now")
    from insert_group_inv [OF ins assms v] have "store_inv s1" .
    moreover from False True ins have "fst (UpsertGroup now s i name) = s1"
      by (cases r) (simp_all add: UpsertGroup_def Let_def)
    ultimately show ?thesis by simp
  next
    case ne: False
    obtain s1 r where upd: "update_group s (TrimSpace name) now i = (s1, r)"
      by (cases "update_group s (TrimSpace name) now i")
    from update_group_inv [OF upd assms v] have s1: "store_inv s1" .
    from False ne upd have "fst (UpsertGroup now s i name) = s1
        \<or> fst (UpsertGroup now s i name) = sent (Query ''SELECT FROM groups WHERE id'') s1"
      by (cases r) (auto simp add: UpsertGroup_def Let_def select_group_def split: option.splits)
    with s1 show ?thesis by auto
  qed
qed

lemma DeleteGroup_inv:
  assumes "store_inv s"
  shows "store_inv (fst (DeleteGroup s i))"
proof (cases "i \<le> 0")
  case True
  with assms show ?thesis by (simp add: DeleteGroup_def)
next
  case False
  obtain s1 r where d: "delete_group s i = (s1, r)" by (cases "delete_group s i")
  from delete_group_inv [OF d assms] have "store_inv s1" .
  moreover from False d have "fst (DeleteGroup s i) = s1"
    by (cases r) (simp_all add: DeleteGroup_def)
  ultimately show ?thesis by simp
qed

lemma DeleteTask_inv:
  assumes "store_inv s"
  shows "store_inv (fst (DeleteTask s i))"
proof (cases "i \<le> 0")
  case True
  with assms show ?thesis by (simp add: DeleteTask_def)
next
  case False
  obtain s1 r where d: "delete_task s i = (s1, r)" by (cases "delete_task s i")
  from delete_task_inv [OF d assms] have "store_inv s1" .
  moreover from False d have "fst (DeleteTask s i) = s1"
    by (cases r) (simp_all add: DeleteTask_def)
  ultimately show ?thesis by simp
qed

lemma setSetting_inv: "store_inv s \<Longrightarrow> store_inv (fst (setSetting s k v))"
  using upsert_setting_inv [of s k v "fst (upsert_setting s k v)" "snd (upsert_setting s k v)"]
  by (simp add: setSetting_fst)

lemma SetSettings_inv: "store_inv s \<Longrightarrow> store_inv (fst (SetSettings uc s st))"
  by (simp add: SetSettings_eq setSetting_inv)

lemma SetLast_inv: "store_inv s \<Longrightarrow> store_inv (fst (SetLastWaterReminderAt s t))"
  by (simp add: SetLastWaterReminderAt_def setSetting_inv)

lemma reads_fst:
  "fst (ListGroups s) = sent (Query ''SELECT FROM groups ORDER BY id'') s"
  "fst (ListTasks s) = sent (Query ''SELECT FROM tasks ORDER BY updated_at DESC, id DESC'') s"
  "fst (GetSettings uc s) = sent (Query ''SELECT key, value FROM settings'') s"
  "fst (GetLastWaterReminderAt s) = sent (Query ''SELECT value FROM settings WHERE key'') s"
  by (simp_all add: ListGroups_def select_groups_def ListTasks_def select_tasks_def
      GetSettings_def select_settings_def GetLastWaterReminderAt_def select_setting_def Let_def
      split: option.splits sum.splits)


lemma find_id_None: "(find (\<lambda>g. f g = i) xs = None) = (i \<notin> set (map f xs))"
  by (auto simp add: find_None_iff)

lemma groupExists_eq:
  "groupExists s g = (sent (Query ''SELECT id FROM groups WHERE id'') s, Inr (has_group s g))"
proof (cases "find (\<lambda>x. g_ID x = g) (groups s)")
  case None
  then have "\<not> has_group s g" using find_id_None [of g_ID g "groups s"] by (simp add: has_group_def)
  with None show ?thesis by (simp add: groupExists_def select_group_id_def)
next
  case (Some x)
  then have "has_group s g" using find_id_None [of g_ID g "groups s"] by (simp add: has_group_def)
  with Some show ?thesis by (simp add: groupExists_def select_group_id_def)
qed

definition trimmed :: "Task \<Rightarrow> Task" where
  "trimmed req = req\<lparr>t_Title := TrimSpace (t_Title req), t_Content := TrimSpace (t_Content req)\<rparr>"

definition valid_task :: "store \<Rightarrow> Task \<Rightarrow> bool" where
  "valid_task s req =
     (0 < t_GroupID req \<and> has_group s (t_GroupID req)
      \<and> TrimSpace (t_Title req) \<noteq> []
      \<and> RuneCountInString (TrimSpace (t_Title req)) \<le> maxTaskTitleRunes
      \<and> RuneCountInString (TrimSpace (t_Content req)) \<le> maxTaskContentRunes
      \<and> valid_status (t_Status req))"

definition asked :: "store \<Rightarrow> store" where
  "asked s = sent (Query ''SELECT id FROM groups WHERE id'') s"

lemma ParseStatus_eq: "ParseStatus x = (if valid_status x then Inr x else Inl (ErrInvalidStatus x))"
  by (simp add: ParseStatus_def valid_status_def StatusTodo_def StatusDoing_def StatusDone_def)

lemma UpsertTask_no_group: "t_GroupID req \<le> 0 \<Longrightarrow> UpsertTask now s req = (s, Inl ErrSelectGroup)"
  by (simp add: UpsertTask_def Let_def)

lemma UpsertTask_missing_group:
  "0 < t_GroupID req \<Longrightarrow> \<not> has_group s (t_GroupID req) \<Longrightarrow>
   UpsertTask now s req = (asked s, Inl (ErrGroupNotFound (t_GroupID req)))"
  by (simp add: UpsertTask_def Let_def groupExists_eq asked_def)

lemma UpsertTask_title_empty:
  "0 < t_GroupID req \<Longrightarrow> has_group s (t_GroupID req) \<Longrightarrow> TrimSpace (t_Title req) = [] \<Longrightarrow>
   UpsertTask now s req = (asked s, Inl ErrTaskTitleEmpty)"
  by (simp add: UpsertTask_def Let_def groupExists_eq asked_def)

lemma UpsertTask_title_long:
  "0 < t_GroupID req \<Longrightarrow> has_group s (t_GroupID req) \<Longrightarrow> TrimSpace (t_Title req) \<noteq> [] \<Longrightarrow>
   maxTaskTitleRunes < RuneCountInString (TrimSpace (t_Title req)) \<Longrightarrow>
   UpsertTask now s req = (asked s, Inl ErrTaskTitleTooLong)"
  by (simp add: UpsertTask_def Let_def groupExists_eq asked_def)

lemma UpsertTask_content_long:
  "0 < t_GroupID req \<Longrightarrow> has_group s (t_GroupID req) \<Longrightarrow> TrimSpace (t_Title req) \<noteq> [] \<Longrightarrow>
   RuneCountInString (TrimSpace (t_Title req)) \<le> maxTaskTitleRunes \<Longrightarrow>
   maxTaskContentRunes < RuneCountInString (TrimSpace (t_Content req)) \<Longrightarrow>
   UpsertTask now s req = (asked s, Inl ErrTaskContentTooLong)"
  by (simp add: UpsertTask_def Let_def groupExists_eq asked_def)

lemma UpsertTask_bad_status:
  "0 < t_GroupID req \<Longrightarrow> has_group s (t_GroupID req) \<Longrightarrow> TrimSpace (t_Title req) \<noteq> [] \<Longrightarrow>
   RuneCountInString (TrimSpace (t_Title req)) \<le> maxTaskTitleRunes \<Longrightarrow>
   RuneCountInString (TrimSpace (t_Content req)) \<le> maxTaskContentRunes \<Longrightarrow>
   \<not> valid_status (t_Status req) \<Longrightarrow>
   UpsertTask now s req = (asked s, Inl (ErrInvalidStatus (t_Status req)))"
  by (simp add: UpsertTask_def Let_def groupExists_eq asked_def ParseStatus_eq)


lemma row_checks_valid: "valid_status x \<Longrightarrow> row_checks x (boolTo01Int a) (boolTo01Int b)"
  by (simp add: row_checks_def valid_status_def boolTo01Int_def)

text \<open>The row a valid request is stored as, and the row an update leaves.\<close>

definition new_row :: "int \<Rightarrow> int \<Rightarrow> Task \<Rightarrow> task_row" where
  "new_row now i req =
     \<lparr>r_id = i, r_group_id = t_GroupID req, r_title = TrimSpace (t_Title req),
      r_content = TrimSpace (t_Content req), r_status = t_Status req,
      r_important = boolTo01Int (t_Important req), r_urgent = boolTo01Int (t_Urgent req),
      r_created_at = now, r_updated_at = now\<rparr>"

definition set_row :: "int \<Rightarrow> Task \<Rightarrow> task_row \<Rightarrow> task_row" where
  "set_row now req r =
     (if r_id r = t_ID req
      then r\<lparr>r_group_id := t_GroupID req, r_title := TrimSpace (t_Title req),
             r_content := TrimSpace (t_Content req), r_status := t_Status req,
             r_important := boolTo01Int (t_Important req), r_urgent := boolTo01Int (t_Urgent req),
             r_updated_at := now\<rparr>
      else r)"

lemma has_group_sent [simp]: "has_group (sent c s) g = has_group s g"
  by (simp add: has_group_def sent_def)

lemma tables_sent [simp]:
  "groups (sent c s) = groups s" "groups_seq (sent c s) = groups_seq s"
  "tasks (sent c s) = tasks s" "tasks_seq (sent c s) = tasks_seq s"
  "settings (sent c s) = settings s" "journal (sent c s) = journal s @ [c]"
  by (simp_all add: sent_def)

lemma UpsertTask_valid:
  assumes "valid_task s req"
  shows "UpsertTask now s req =
     (if t_ID req = 0 then
        (case insert_task (asked s) (t_GroupID req) (TrimSpace (t_Title req)) (TrimSpace (t_Content req)) (t_Status req)
                (boolTo01Int (t_Important req)) (boolTo01Int (t_Urgent req)) now now of
           (s2, Inl e) \<Rightarrow> (s2, Inl (Wrap ''create task'' e))
         | (s2, Inr newID) \<Rightarrow>
             (s2, Inr ((trimmed req)\<lparr>t_ID := newID, t_CreatedAt := now, t_UpdatedAt := now\<rparr>)))
      else
        (case update_task (asked s) (t_GroupID req) (TrimSpace (t_Title req)) (TrimSpace (t_Content req)) (t_Status req)
                (boolTo01Int (t_Important req)) (boolTo01Int (t_Urgent req)) now (t_ID req) of
           (s2, Inl e) \<Rightarrow> (s2, Inl (Wrap ''update task'' e))
         | (s2, Inr affected) \<Rightarrow>
             if affected = 0 then (s2, Inl (ErrTaskNotFound (t_ID req)))
             else
               (case select_task s2 (t_ID req) of
                  (s3, None) \<Rightarrow> (s3, Inl (Wrap ''reload task'' ErrNoRows))
                | (s3, Some r) \<Rightarrow>
                    (case ParseStatus (r_status r) of
                       Inl e \<Rightarrow> (s3, Inl (Wrap ''parse task status'' e))
                     | Inr parsed \<Rightarrow> (s3, Inr (scanned r parsed))))))"
  using assms
  by (simp add: UpsertTask_def Let_def groupExists_eq asked_def [symmetric] valid_task_def ParseStatus_eq trimmed_def
      split: prod.split sum.split)

lemma insert_task_ok:
  assumes "row_checks st im ur" "has_group s g"
  shows "insert_task s g title body st im ur c u =
     ((sent (Exec ''INSERT INTO tasks'') s)\<lparr>tasks := tasks s @
        [\<lparr>r_id = next_rowid (map r_id (tasks s)) (tasks_seq s), r_group_id = g, r_title = title,
          r_content = body, r_status = st, r_important = im, r_urgent = ur,
          r_created_at = c, r_updated_at = u\<rparr>],
        tasks_seq := next_rowid (map r_id (tasks s)) (tasks_seq s)\<rparr>,
      Inr (next_rowid (map r_id (tasks s)) (tasks_seq s)))"
  using assms by (simp add: insert_task_def Let_def)

lemma UpsertTask_insert:
  assumes "valid_task s req" "t_ID req = 0"
  shows "UpsertTask now s req =
     ((sent (Exec ''INSERT INTO tasks'') (asked s))\<lparr>tasks := tasks s @
          [new_row now (next_rowid (map r_id (tasks s)) (tasks_seq s)) req],
        tasks_seq := next_rowid (map r_id (tasks s)) (tasks_seq s)\<rparr>,
      Inr ((trimmed req)\<lparr>t_ID := next_rowid (map r_id (tasks s)) (tasks_seq s),
             t_CreatedAt := now, t_UpdatedAt := now\<rparr>))"
proof -
  from assms(1) have c: "row_checks (t_Status req) (boolTo01Int (t_Important req)) (boolTo01Int (t_Urgent req))"
    and g: "has_group (asked s) (t_GroupID req)"
    by (simp_all add: valid_task_def row_checks_valid asked_def)
  show ?thesis
    unfolding UpsertTask_valid [OF assms(1)] insert_task_ok [OF c g]
    using assms(2) by (simp add: new_row_def asked_def)
qed

lemma update_task_none:
  "i \<notin> set (map r_id (tasks s)) \<Longrightarrow>
   update_task s g title body st im ur u i = (sent (Exec ''UPDATE tasks'') s, Inr 0)"
proof -
  assume "i \<notin> set (map r_id (tasks s))"
  then have "filter (\<lambda>r. r_id r = i) (tasks s) = []" by (auto simp add: filter_empty_conv)
  then show ?thesis by (simp add: update_task_def Let_def)
qed

lemma UpsertTask_update_missing:
  assumes "valid_task s req" "t_ID req \<noteq> 0" "t_ID req \<notin> set (map r_id (tasks s))"
  shows "UpsertTask now s req = (sent (Exec ''UPDATE tasks'') (asked s), Inl (ErrTaskNotFound (t_ID req)))"
proof -
  from assms(3) have "t_ID req \<notin> set (map r_id (tasks (asked s)))" by (simp add: asked_def)
  note u = update_task_none [OF this]
  show ?thesis unfolding UpsertTask_valid [OF assms(1)] u using assms(2) by simp
qed

lemma set_row_id [simp]: "r_id (set_row now req r) = r_id r"
  by (simp add: set_row_def)

lemma find_mapped:
  "distinct (map r_id xs) \<Longrightarrow> r \<in> set xs \<Longrightarrow> (\<And>x. r_id (f x) = r_id x) \<Longrightarrow>
   find (\<lambda>x. r_id x = r_id r) (map f xs) = Some (f r)"
  by (induction xs) (auto simp add: image_iff)

lemma update_task_ok:
  assumes "row_checks st im ur" "has_group s g" "i \<in> set (map r_id (tasks s))"
  shows "update_task s g title body st im ur u i =
     ((sent (Exec ''UPDATE tasks'') s)\<lparr>tasks := map (\<lambda>r. if r_id r = i
                                     then r\<lparr>r_group_id := g, r_title := title, r_content := body,
                                            r_status := st, r_important := im,
                                            r_urgent := ur, r_updated_at := u\<rparr>
                                     else r) (tasks s)\<rparr>,
      Inr (length (filter (\<lambda>r. r_id r = i) (tasks s))))"
proof -
  from assms(3) have "filter (\<lambda>r. r_id r = i) (tasks s) \<noteq> []" by (auto simp add: filter_empty_conv)
  with assms(1,2) show ?thesis by (simp add: update_task_def Let_def)
qed

lemma UpsertTask_update:
  assumes "valid_task s req" "t_ID req \<noteq> 0" "r \<in> set (tasks s)" "r_id r = t_ID req"
    "distinct (map r_id (tasks s))"
  shows "UpsertTask now s req =
     (sent (Query ''SELECT FROM tasks WHERE id'')
        ((sent (Exec ''UPDATE tasks'') (asked s))\<lparr>tasks := map (set_row now req) (tasks s)\<rparr>),
      Inr (scanned (set_row now req r) (t_Status req)))"
proof -
  from assms(1) have c: "row_checks (t_Status req) (boolTo01Int (t_Important req)) (boolTo01Int (t_Urgent req))"
    and g: "has_group (asked s) (t_GroupID req)" and v: "valid_status (t_Status req)"
    by (simp_all add: valid_task_def row_checks_valid asked_def)
  from assms(3) have "r_id r \<in> set (map r_id (tasks s))" by simp
  with assms(4) have i: "t_ID req \<in> set (map r_id (tasks (asked s)))" by (simp add: asked_def)
  from assms(3,4) have n: "filter (\<lambda>r. r_id r = t_ID req) (tasks s) \<noteq> []" by (auto simp add: filter_empty_conv)
  have m: "(\<lambda>r. if r_id r = t_ID req
                 then r\<lparr>r_group_id := t_GroupID req, r_title := TrimSpace (t_Title req),
                        r_content := TrimSpace (t_Content req), r_status := t_Status req,
                        r_important := boolTo01Int (t_Important req), r_urgent := boolTo01Int (t_Urgent req),
                        r_updated_at := now\<rparr>
                 else r) = set_row now req"
    by (rule ext) (simp add: set_row_def)
  have f: "find (\<lambda>x. r_id x = t_ID req) (map (set_row now req) (tasks s)) = Some (set_row now req r)"
    using find_mapped [OF assms(5,3), of "set_row now req"] assms(4) by simp
  have st: "r_status (set_row now req r) = t_Status req" using assms(4) by (simp add: set_row_def)
  show ?thesis
    unfolding UpsertTask_valid [OF assms(1)] update_task_ok [OF c g i] m
    using assms(2) n v f st by (simp add: asked_def select_task_def ParseStatus_eq)
qed

lemma UpsertTask_inv:
  assumes "store_inv s"
  shows "store_inv (fst (UpsertTask now s req))"
proof (cases "valid_task s req")
  case False
  then consider "t_GroupID req \<le> 0"
    | "0 < t_GroupID req" "\<not> has_group s (t_GroupID req)"
    | "0 < t_GroupID req" "has_group s (t_GroupID req)" "TrimSpace (t_Title req) = []"
    | "0 < t_GroupID req" "has_group s (t_GroupID req)" "TrimSpace (t_Title req) \<noteq> []"
      "maxTaskTitleRunes < RuneCountInString (TrimSpace (t_Title req))"
    | "0 < t_GroupID req" "has_group s (t_GroupID req)" "TrimSpace (t_Title req) \<noteq> []"
      "RuneCountInString (TrimSpace (t_Title req)) \<le> maxTaskTitleRunes"
      "maxTaskContentRunes < RuneCountInString (TrimSpace (t_Content req))"
    | "0 < t_GroupID req" "has_group s (t_GroupID req)" "TrimSpace (t_Title req) \<noteq> []"
      "RuneCountInString (TrimSpace (t_Title req)) \<le> maxTaskTitleRunes"
      "RuneCountInString (TrimSpace (t_Content req)) \<le> maxTaskContentRunes"
      "\<not> valid_status (t_Status req)"
    unfolding valid_task_def by linarith
  then show ?thesis
    using assms
    by cases (simp_all add: UpsertTask_no_group UpsertTask_missing_group UpsertTask_title_empty
        UpsertTask_title_long UpsertTask_content_long UpsertTask_bad_status asked_def)
next
  case True
  from assms have a: "store_inv (asked s)" by (simp add: asked_def)
  show ?thesis
  proof (cases "t_ID req = 0")
    case z: True
    obtain s2 r where i: "insert_task (asked s) (t_GroupID req) (TrimSpace (t_Title req)) (TrimSpace (t_Content req)) (t_Status req)
                (boolTo01Int (t_Important req)) (boolTo01Int (t_Urgent req)) now now = (s2, r)"
      by (metis prod.collapse)
    from insert_task_inv [OF i a] have "store_inv s2" .
    moreover from z i have "fst (UpsertTask now s req) = s2"
      unfolding UpsertTask_valid [OF True] by (cases r) simp_all
    ultimately show ?thesis by simp
  next
    case nz: False
    obtain s2 r where u: "update_task (asked s) (t_GroupID req) (TrimSpace (t_Title req)) (TrimSpace (t_Content req)) (t_Status req)
                (boolTo01Int (t_Important req)) (boolTo01Int (t_Urgent req)) now (t_ID req) = (s2, r)"
      by (metis prod.collapse)
    from update_task_inv [OF u a] have s2: "store_inv s2" .
    from nz u have "fst (UpsertTask now s req) = s2
       \<or> fst (UpsertTask now s req) = sent (Query ''SELECT FROM tasks WHERE id'') s2"
      unfolding UpsertTask_valid [OF True]
      by (cases r) (auto simp add: select_task_def split: option.splits sum.splits)
    with s2 show ?thesis by auto
  qed
qed

lemma empty_inv: "store_inv empty_store"
  by (simp add: store_inv_def empty_store_def)

lemma reachable_inv: "reachable s \<Longrightarrow> store_inv s"
proof (induction rule: reachable.induct)
  case r_new
  show ?case by (rule empty_inv)
qed (simp_all add: Open_inv UpsertGroup_inv DeleteGroup_inv UpsertTask_inv DeleteTask_inv
      SetSettings_inv SetLast_inv reads_fst)

section \<open>What the group and task operations return\<close>

lemma insert_group_dup:
  "n \<in> set (map g_Name (groups s)) \<Longrightarrow>
   insert_group s n c u = (sent (Exec ''INSERT INTO groups'') s, Inl (SqliteError SQLITE_CONSTRAINT_UNIQUE))"
  by (simp add: insert_group_def Let_def)

lemma insert_group_ok:
  "n \<notin> set (map g_Name (groups s)) \<Longrightarrow>
   insert_group s n c u =
     ((sent (Exec ''INSERT INTO groups'') s)\<lparr>groups := groups s @
         [\<lparr>g_ID = next_rowid (map g_ID (groups s)) (groups_seq s), g_Name = n, g_CreatedAt = c, g_UpdatedAt = u\<rparr>],
        groups_seq := next_rowid (map g_ID (groups s)) (groups_seq s)\<rparr>,
      Inr (next_rowid (map g_ID (groups s)) (groups_seq s)))"
  by (simp add: insert_group_def Let_def)

lemma update_group_none:
  assumes "i \<notin> set (map g_ID (groups s))"
  shows "update_group s n u i = (sent (Exec ''UPDATE groups'') s, Inr 0)"
proof -
  from assms have "filter (\<lambda>g. g_ID g = i) (groups s) = []" by (auto simp add: filter_empty_conv)
  then show ?thesis by (simp add: update_group_def Let_def)
qed

lemma update_group_dup:
  assumes "i \<in> set (map g_ID (groups s))" "n \<in> set (map g_Name (filter (\<lambda>g. g_ID g \<noteq> i) (groups s)))"
  shows "update_group s n u i = (sent (Exec ''UPDATE groups'') s, Inl (SqliteError SQLITE_CONSTRAINT_UNIQUE))"
proof -
  from assms(1) have "filter (\<lambda>g. g_ID g = i) (groups s) \<noteq> []" by (auto simp add: filter_empty_conv)
  with assms(2) show ?thesis by (simp add: update_group_def Let_def)
qed

definition rename :: "int \<Rightarrow> string \<Rightarrow> int \<Rightarrow> Group \<Rightarrow> Group" where
  "rename i n u g = (if g_ID g = i then g\<lparr>g_Name := n, g_UpdatedAt := u\<rparr> else g)"

lemma update_group_ok:
  assumes "i \<in> set (map g_ID (groups s))" "n \<notin> set (map g_Name (filter (\<lambda>g. g_ID g \<noteq> i) (groups s)))"
  shows "update_group s n u i =
     ((sent (Exec ''UPDATE groups'') s)\<lparr>groups := map (rename i n u) (groups s)\<rparr>,
      Inr (length (filter (\<lambda>g. g_ID g = i) (groups s))))"
proof -
  from assms(1) have "filter (\<lambda>g. g_ID g = i) (groups s) \<noteq> []" by (auto simp add: filter_empty_conv)
  moreover have "(\<lambda>g. if g_ID g = i then g\<lparr>g_Name := n, g_UpdatedAt := u\<rparr> else g) = rename i n u"
    by (rule ext) (simp add: rename_def)
  ultimately show ?thesis using assms(2) by (simp add: update_group_def Let_def)
qed

lemma UpsertGroup_empty: "TrimSpace name = [] \<Longrightarrow> UpsertGroup now s i name = (s, Inl ErrGroupNameEmpty)"
  by (simp add: UpsertGroup_def Let_def)

lemma UpsertGroup_long:
  "maxGroupNameRunes < RuneCountInString (TrimSpace name) \<Longrightarrow>
   UpsertGroup now s i name = (s, Inl ErrGroupNameTooLong)"
proof -
  assume a: "maxGroupNameRunes < RuneCountInString (TrimSpace name)"
  then have "TrimSpace name \<noteq> []" by auto
  with a show ?thesis by (simp add: UpsertGroup_def Let_def)
qed

lemma UpsertGroup_valid:
  assumes "valid_name (TrimSpace name)"
  shows "UpsertGroup now s i name =
     (if i = 0 then
        (case insert_group s (TrimSpace name) now now of
           (s1, Inl e) \<Rightarrow>
             if sqliteIsConstraint e SQLITE_CONSTRAINT_UNIQUE then (s1, Inl ErrGroupNameExists)
             else (s1, Inl (Wrap ''create group'' e))
         | (s1, Inr newID) \<Rightarrow>
             (s1, Inr \<lparr>g_ID = newID, g_Name = TrimSpace name, g_CreatedAt = now, g_UpdatedAt = now\<rparr>))
      else
        (case update_group s (TrimSpace name) now i of
           (s1, Inl e) \<Rightarrow>
             if sqliteIsConstraint e SQLITE_CONSTRAINT_UNIQUE then (s1, Inl ErrGroupNameExists)
             else (s1, Inl (Wrap ''update group'' e))
         | (s1, Inr affected) \<Rightarrow>
             if affected = 0 then (s1, Inl (ErrGroupNotFound i))
             else (case select_group s1 i of
                     (s2, None) \<Rightarrow> (s2, Inl (Wrap ''reload group'' ErrNoRows))
                   | (s2, Some g) \<Rightarrow> (s2, Inr g))))"
  using assms by (simp add: UpsertGroup_def Let_def valid_name_def)

lemma UpsertGroup_insert_dup:
  assumes "valid_name (TrimSpace name)" "TrimSpace name \<in> set (map g_Name (groups s))"
  shows "UpsertGroup now s 0 name = (sent (Exec ''INSERT INTO groups'') s, Inl ErrGroupNameExists)"
  unfolding UpsertGroup_valid [OF assms(1)] insert_group_dup [OF assms(2)] by simp

lemma UpsertGroup_insert_ok:
  assumes "valid_name (TrimSpace name)" "TrimSpace name \<notin> set (map g_Name (groups s))"
  shows "UpsertGroup now s 0 name =
     ((sent (Exec ''INSERT INTO groups'') s)\<lparr>groups := groups s @
         [\<lparr>g_ID = next_rowid (map g_ID (groups s)) (groups_seq s), g_Name = TrimSpace name,
           g_CreatedAt = now, g_UpdatedAt = now\<rparr>],
        groups_seq := next_rowid (map g_ID (groups s)) (groups_seq s)\<rparr>,
      Inr \<lparr>g_ID = next_rowid (map g_ID (groups s)) (groups_seq s), g_Name = TrimSpace name,
           g_CreatedAt = now, g_UpdatedAt = now\<rparr>)"
  unfolding UpsertGroup_valid [OF assms(1)] insert_group_ok [OF assms(2)] by simp

lemma UpsertGroup_update_missing:
  assumes "valid_name (TrimSpace name)" "i \<noteq> 0" "i \<notin> set (map g_ID (groups s))"
  shows "UpsertGroup now s i name = (sent (Exec ''UPDATE groups'') s, Inl (ErrGroupNotFound i))"
  unfolding UpsertGroup_valid [OF assms(1)] update_group_none [OF assms(3)] using assms(2) by simp

lemma UpsertGroup_update_dup:
  assumes "valid_name (TrimSpace name)" "i \<noteq> 0" "i \<in> set (map g_ID (groups s))"
    "TrimSpace name \<in> set (map g_Name (filter (\<lambda>g. g_ID g \<noteq> i) (groups s)))"
  shows "UpsertGroup now s i name = (sent (Exec ''UPDATE groups'') s, Inl ErrGroupNameExists)"
  unfolding UpsertGroup_valid [OF assms(1)] update_group_dup [OF assms(3,4)] using assms(2) by simp

lemma find_renamed:
  "distinct (map g_ID xs) \<Longrightarrow> g \<in> set xs \<Longrightarrow>
   find (\<lambda>x. g_ID x = g_ID g) (map (rename (g_ID g) n u) xs) = Some (rename (g_ID g) n u g)"
  by (induction xs) (auto simp add: image_iff rename_def)

lemma UpsertGroup_update_ok:
  assumes "valid_name (TrimSpace name)" "g_ID g \<noteq> 0" "g \<in> set (groups s)" "distinct (map g_ID (groups s))"
    "TrimSpace name \<notin> set (map g_Name (filter (\<lambda>h. g_ID h \<noteq> g_ID g) (groups s)))"
  shows "UpsertGroup now s (g_ID g) name =
     (sent (Query ''SELECT FROM groups WHERE id'')
        ((sent (Exec ''UPDATE groups'') s)\<lparr>groups := map (rename (g_ID g) (TrimSpace name) now) (groups s)\<rparr>),
      Inr (g\<lparr>g_Name := TrimSpace name, g_UpdatedAt := now\<rparr>))"
proof -
  from assms(3) have i: "g_ID g \<in> set (map g_ID (groups s))" by simp
  from assms(3) have n: "filter (\<lambda>h. g_ID h = g_ID g) (groups s) \<noteq> []" by (auto simp add: filter_empty_conv)
  note f = find_renamed [OF assms(4,3), of "TrimSpace name" now]
  show ?thesis
    unfolding UpsertGroup_valid [OF assms(1)] update_group_ok [OF i assms(5)]
    using assms(2) n f by (simp add: select_group_def rename_def)
qed

lemma delete_group_none:
  assumes "i \<notin> set (map g_ID (groups s))"
  shows "delete_group s i = (sent (Exec ''DELETE FROM groups'') s, Inr 0)"
proof -
  from assms have "filter (\<lambda>g. g_ID g = i) (groups s) = []" by (auto simp add: filter_empty_conv)
  then show ?thesis by (simp add: delete_group_def Let_def)
qed

lemma delete_task_none:
  assumes "i \<notin> set (map r_id (tasks s))"
  shows "delete_task s i = (sent (Exec ''DELETE FROM tasks'') s, Inr 0)"
proof -
  from assms have "filter (\<lambda>r. r_id r = i) (tasks s) = []" by (auto simp add: filter_empty_conv)
  then show ?thesis by (simp add: delete_task_def Let_def)
qed

lemma content_sent [simp]: "content (sent c s) = content s"
  by (simp add: content_def)

lemma issued_sent: "issued s (sent c s) = [c]" "issued s (sent d (sent c s)) = [c, d]" "issued s s = []"
  by (simp_all add: issued_def)

section \<open>C2: duplicate group names\<close>

lemma UpsertGroup_Exists_only:
  assumes "snd (UpsertGroup now s i name) = Inl ErrGroupNameExists"
  shows "TrimSpace name \<in> set (map g_Name (filter (\<lambda>k. i = 0 \<or> g_ID k \<noteq> i) (groups s)))"
proof (rule ccontr)
  assume n: "\<not> ?thesis"
  have "TrimSpace name \<noteq> []"
  proof
    assume "TrimSpace name = []"
    from UpsertGroup_empty [OF this, of now s i] assms show False by simp
  qed
  moreover have "\<not> maxGroupNameRunes < RuneCountInString (TrimSpace name)"
  proof
    assume "maxGroupNameRunes < RuneCountInString (TrimSpace name)"
    from UpsertGroup_long [OF this, of now s i] assms show False by simp
  qed
  ultimately have v: "valid_name (TrimSpace name)" by (simp add: valid_name_def)
  show False
  proof (cases "i = 0")
    case True
    with n have "TrimSpace name \<notin> set (map g_Name (groups s))" by simp
    from UpsertGroup_insert_ok [OF v this, of now] True assms show False by simp
  next
    case False
    with n have m: "TrimSpace name \<notin> set (map g_Name (filter (\<lambda>g. g_ID g \<noteq> i) (groups s)))" by simp
    show False
    proof (cases "i \<in> set (map g_ID (groups s))")
      case True
      from assms False show False
        unfolding UpsertGroup_valid [OF v] update_group_ok [OF True m]
        by (simp add: select_group_def split: if_splits option.splits)
    next
      case no: False
      from UpsertGroup_update_missing [OF v False no, of now] assms show False by simp
    qed
  qed
qed

text \<open>
  C2: in a reachable store, inserting a group under the name of a stored group fails with the
  duplicate-name error, and so does renaming another group to that name; renaming a group to
  its own name succeeds and returns it with the new time; the duplicate-name error comes
  from a collision with another row only; and of the engine's errors only the one with the
  code of the unique constraint is taken for a duplicate.
\<close>

theorem C2_duplicate_names:
  assumes "reachable s"
  shows "(g \<in> set (groups s) \<and> TrimSpace name = g_Name g \<longrightarrow>
            snd (UpsertGroup now s 0 name) = Inl ErrGroupNameExists
            \<and> snd (UpsertGroup now s (g_ID g) name) = Inr (g\<lparr>g_UpdatedAt := now\<rparr>))
         \<and> (g \<in> set (groups s) \<and> h \<in> set (groups s) \<and> g_ID h \<noteq> g_ID g \<and> TrimSpace name = g_Name g \<longrightarrow>
            snd (UpsertGroup now s (g_ID h) name) = Inl ErrGroupNameExists)
         \<and> (snd (UpsertGroup now s i name) = Inl ErrGroupNameExists \<longrightarrow>
            TrimSpace name \<in> set (map g_Name (filter (\<lambda>k. i = 0 \<or> g_ID k \<noteq> i) (groups s))))
         \<and> sqliteIsConstraint (SqliteError c) SQLITE_CONSTRAINT_UNIQUE = (c = SQLITE_CONSTRAINT_UNIQUE)
         \<and> \<not> sqliteIsConstraint (SqliteError SQLITE_CONSTRAINT_CHECK) SQLITE_CONSTRAINT_UNIQUE
         \<and> \<not> sqliteIsConstraint (SqliteError SQLITE_CONSTRAINT_FOREIGNKEY) SQLITE_CONSTRAINT_UNIQUE
         \<and> \<not> sqliteIsConstraint ErrNoRows SQLITE_CONSTRAINT_UNIQUE"
proof -
  from reachable_inv [OF assms] have inv: "store_inv s" .
  then have d: "distinct (map g_ID (groups s))" and dn: "distinct (map g_Name (groups s))"
    and l: "list_all (\<lambda>g. 0 < g_ID g \<and> valid_name (g_Name g)) (groups s)"
    by (simp_all add: store_inv_def)
  have others: "g_Name g \<notin> set (map g_Name (filter (\<lambda>k. g_ID k \<noteq> g_ID g) (groups s)))"
    if "g \<in> set (groups s)"
  proof
    assume "g_Name g \<in> set (map g_Name (filter (\<lambda>k. g_ID k \<noteq> g_ID g) (groups s)))"
    then obtain k where k: "k \<in> set (groups s)" "g_ID k \<noteq> g_ID g" "g_Name k = g_Name g" by auto
    from dn k(1) that k(3) have "k = g" by (simp add: distinct_map inj_on_def)
    with k(2) show False by simp
  qed
  have 1: "snd (UpsertGroup now s 0 name) = Inl ErrGroupNameExists
            \<and> snd (UpsertGroup now s (g_ID g) name) = Inr (g\<lparr>g_UpdatedAt := now\<rparr>)"
    if g: "g \<in> set (groups s)" and n: "TrimSpace name = g_Name g"
  proof -
    from l g have p: "0 < g_ID g" and v: "valid_name (g_Name g)" by (simp_all add: list_all_iff)
    from v n have v': "valid_name (TrimSpace name)" by simp
    from g n have "TrimSpace name \<in> set (map g_Name (groups s))" by simp
    from UpsertGroup_insert_dup [OF v' this, of now]
    have a: "snd (UpsertGroup now s 0 name) = Inl ErrGroupNameExists" by simp
    from p have nz: "g_ID g \<noteq> 0" by simp
    from others [OF g] n have "TrimSpace name \<notin> set (map g_Name (filter (\<lambda>k. g_ID k \<noteq> g_ID g) (groups s)))"
      by simp
    from UpsertGroup_update_ok [OF v' nz g d this, of now] n
    have "snd (UpsertGroup now s (g_ID g) name) = Inr (g\<lparr>g_UpdatedAt := now\<rparr>)" by simp
    with a show ?thesis by simp
  qed
  have 2: "snd (UpsertGroup now s (g_ID h) name) = Inl ErrGroupNameExists"
    if g: "g \<in> set (groups s)" and h: "h \<in> set (groups s)" and ne: "g_ID h \<noteq> g_ID g"
      and n: "TrimSpace name = g_Name g"
  proof -
    from l g have v: "valid_name (g_Name g)" by (simp add: list_all_iff)
    from v n have v': "valid_name (TrimSpace name)" by simp
    from l h have nz: "g_ID h \<noteq> 0" by (auto simp add: list_all_iff)
    from h have i: "g_ID h \<in> set (map g_ID (groups s))" by simp
    from g ne n have "TrimSpace name \<in> set (map g_Name (filter (\<lambda>k. g_ID k \<noteq> g_ID h) (groups s)))"
      by (auto simp add: image_iff)
    from UpsertGroup_update_dup [OF v' nz i this, of now] show ?thesis by simp
  qed
  show ?thesis
    using 1 2 UpsertGroup_Exists_only [of now s i name]
    by (simp add: SQLITE_CONSTRAINT_UNIQUE_def SQLITE_CONSTRAINT_CHECK_def SQLITE_CONSTRAINT_FOREIGNKEY_def)
qed


definition two_groups :: store where
  "two_groups = fst (UpsertGroup 3 (fst (UpsertGroup 2 (fst (Open 1 empty_store)) 0 ''Work'')) 0 ''Home'')"

theorem C2_duplicate_names_witness:
  "reachable two_groups
   \<and> \<lparr>g_ID = 2, g_Name = ''Work'', g_CreatedAt = 2, g_UpdatedAt = 2\<rparr> \<in> set (groups two_groups)
   \<and> \<lparr>g_ID = 3, g_Name = ''Home'', g_CreatedAt = 3, g_UpdatedAt = 3\<rparr> \<in> set (groups two_groups)
   \<and> TrimSpace '' Work '' = ''Work''
   \<and> snd (UpsertGroup 9 two_groups 0 '' Work '') = Inl ErrGroupNameExists
   \<and> snd (UpsertGroup 9 two_groups 2 '' Work '') = Inr \<lparr>g_ID = 2, g_Name = ''Work'', g_CreatedAt = 2, g_UpdatedAt = 9\<rparr>
   \<and> snd (UpsertGroup 9 two_groups 3 '' Work '') = Inl ErrGroupNameExists"
proof -
  let ?g = "\<lparr>g_ID = 2, g_Name = ''Work'', g_CreatedAt = 2, g_UpdatedAt = 2\<rparr>"
  let ?h = "\<lparr>g_ID = 3, g_Name = ''Home'', g_CreatedAt = 3, g_UpdatedAt = 3\<rparr>"
  have r: "reachable two_groups" unfolding two_groups_def by (intro reachable.intros)
  have g: "?g \<in> set (groups two_groups)" by code_simp
  have h: "?h \<in> set (groups two_groups)" by code_simp
  have t: "TrimSpace '' Work '' = ''Work''" by code_simp
  note w = C2_duplicate_names [OF r, of ?g "'' Work ''" 9 ?h 0 0]
  from w g t have 1: "snd (UpsertGroup 9 two_groups 0 '' Work '') = Inl ErrGroupNameExists"
    and 2: "snd (UpsertGroup 9 two_groups 2 '' Work '') = Inr \<lparr>g_ID = 2, g_Name = ''Work'', g_CreatedAt = 2, g_UpdatedAt = 9\<rparr>"
    by simp_all
  from w g h t have 3: "snd (UpsertGroup 9 two_groups 3 '' Work '') = Inl ErrGroupNameExists"
    by simp
  from r g h t 1 2 3 show ?thesis by (intro conjI)
qed

section \<open>C7: updating and deleting what is not there\<close>

lemma DeleteGroup_missing:
  assumes "0 < i" "i \<notin> set (map g_ID (groups s))"
  shows "DeleteGroup s i = (sent (Exec ''DELETE FROM groups'') s, Some (ErrGroupNotFound i))"
  unfolding DeleteGroup_def delete_group_none [OF assms(2)] using assms(1) by simp

lemma DeleteTask_missing:
  assumes "0 < i" "i \<notin> set (map r_id (tasks s))"
  shows "DeleteTask s i = (sent (Exec ''DELETE FROM tasks'') s, Some (ErrTaskNotFound i))"
  unfolding DeleteTask_def delete_task_none [OF assms(2)] using assms(1) by simp

text \<open>
  C7: with an id above 0 that no row has, an update of a group or of a task (the request
  being valid otherwise) and a delete of either fail with the not-found error of the id; the
  operation sends the \<^verbatim>\<open>UPDATE\<close> or \<^verbatim>\<open>DELETE\<close> itself, which affects no row, and reads the
  row at no point (the one read of \<^verbatim>\<open>UpsertTask\<close> is the one of the group); a delete with an id
  that is not positive is refused with nothing sent.
\<close>

theorem C7_not_found:
  "(valid_name (TrimSpace name) \<and> 0 < i \<and> i \<notin> set (map g_ID (groups s)) \<longrightarrow>
      UpsertGroup now s i name = (sent (Exec ''UPDATE groups'') s, Inl (ErrGroupNotFound i))
      \<and> snd (update_group s (TrimSpace name) now i) = Inr 0)
   \<and> (valid_task s req \<and> 0 < t_ID req \<and> t_ID req \<notin> set (map r_id (tasks s)) \<longrightarrow>
      UpsertTask now s req =
        (sent (Exec ''UPDATE tasks'') (sent (Query ''SELECT id FROM groups WHERE id'') s),
         Inl (ErrTaskNotFound (t_ID req))))
   \<and> (0 < i \<and> i \<notin> set (map g_ID (groups s)) \<longrightarrow>
      DeleteGroup s i = (sent (Exec ''DELETE FROM groups'') s, Some (ErrGroupNotFound i))
      \<and> snd (delete_group s i) = Inr 0)
   \<and> (0 < i \<and> i \<notin> set (map r_id (tasks s)) \<longrightarrow>
      DeleteTask s i = (sent (Exec ''DELETE FROM tasks'') s, Some (ErrTaskNotFound i))
      \<and> snd (delete_task s i) = Inr 0)
   \<and> (i \<le> 0 \<longrightarrow>
      DeleteGroup s i = (s, Some ErrInvalidGroupID) \<and> DeleteTask s i = (s, Some ErrInvalidTaskID))"
proof -
  have 1: "valid_name (TrimSpace name) \<and> 0 < i \<and> i \<notin> set (map g_ID (groups s)) \<longrightarrow>
      UpsertGroup now s i name = (sent (Exec ''UPDATE groups'') s, Inl (ErrGroupNotFound i))
      \<and> snd (update_group s (TrimSpace name) now i) = Inr 0"
    using UpsertGroup_update_missing [of name i s now] update_group_none [of i s "TrimSpace name" now]
    by simp
  have 2: "valid_task s req \<and> 0 < t_ID req \<and> t_ID req \<notin> set (map r_id (tasks s)) \<longrightarrow>
      UpsertTask now s req =
        (sent (Exec ''UPDATE tasks'') (sent (Query ''SELECT id FROM groups WHERE id'') s),
         Inl (ErrTaskNotFound (t_ID req)))"
    using UpsertTask_update_missing [of s req now] by (simp add: asked_def)
  have 3: "0 < i \<and> i \<notin> set (map g_ID (groups s)) \<longrightarrow>
      DeleteGroup s i = (sent (Exec ''DELETE FROM groups'') s, Some (ErrGroupNotFound i))
      \<and> snd (delete_group s i) = Inr 0"
    using DeleteGroup_missing [of i s] delete_group_none [of i s] by simp
  have 4: "0 < i \<and> i \<notin> set (map r_id (tasks s)) \<longrightarrow>
      DeleteTask s i = (sent (Exec ''DELETE FROM tasks'') s, Some (ErrTaskNotFound i))
      \<and> snd (delete_task s i) = Inr 0"
    using DeleteTask_missing [of i s] delete_task_none [of i s] by simp
  have 5: "i \<le> 0 \<longrightarrow>
      DeleteGroup s i = (s, Some ErrInvalidGroupID) \<and> DeleteTask s i = (s, Some ErrInvalidTaskID)"
    by (simp add: DeleteGroup_def DeleteTask_def)
  from 1 2 3 4 5 show ?thesis by (intro conjI)
qed

definition opened :: store where
  "opened = fst (Open 1 empty_store)"

definition sample_task :: Task where
  "sample_task = \<lparr>t_ID = 7, t_GroupID = 1, t_Title = '' write report '', t_Content = [],
     t_Status = ''todo'', t_Important = True, t_Urgent = False, t_CreatedAt = 0, t_UpdatedAt = 0\<rparr>"

theorem C7_not_found_witness:
  "valid_name (TrimSpace ''Work'') \<and> (0 :: int) < 7 \<and> 7 \<notin> set (map g_ID (groups opened))
   \<and> snd (UpsertGroup 5 opened 7 ''Work'') = Inl (ErrGroupNotFound 7)
   \<and> issued opened (fst (UpsertGroup 5 opened 7 ''Work'')) = [Exec ''UPDATE groups'']
   \<and> valid_task opened sample_task \<and> 7 \<notin> set (map r_id (tasks opened))
   \<and> snd (UpsertTask 5 opened sample_task) = Inl (ErrTaskNotFound 7)
   \<and> issued opened (fst (UpsertTask 5 opened sample_task))
        = [Query ''SELECT id FROM groups WHERE id'', Exec ''UPDATE tasks'']
   \<and> DeleteGroup opened 7 = (sent (Exec ''DELETE FROM groups'') opened, Some (ErrGroupNotFound 7))
   \<and> DeleteTask opened 7 = (sent (Exec ''DELETE FROM tasks'') opened, Some (ErrTaskNotFound 7))
   \<and> (0 :: int) \<le> 0
   \<and> DeleteGroup opened 0 = (opened, Some ErrInvalidGroupID)
   \<and> DeleteTask opened 0 = (opened, Some ErrInvalidTaskID)"
proof -
  have a: "valid_name (TrimSpace ''Work'')" by code_simp
  have b: "7 \<notin> set (map g_ID (groups opened))" by code_simp
  have c: "valid_task opened sample_task" by code_simp
  have d: "7 \<notin> set (map r_id (tasks opened))" by code_simp
  have e: "t_ID sample_task = 7" by (simp add: sample_task_def)
  note w = C7_not_found [of "''Work''" 7 opened 5 sample_task]
  note z = C7_not_found [of "''Work''" 0 opened 5 sample_task]
  from w a b have 1: "UpsertGroup 5 opened 7 ''Work'' = (sent (Exec ''UPDATE groups'') opened, Inl (ErrGroupNotFound 7))"
    by simp
  from w c d e have 2: "UpsertTask 5 opened sample_task =
        (sent (Exec ''UPDATE tasks'') (sent (Query ''SELECT id FROM groups WHERE id'') opened), Inl (ErrTaskNotFound 7))"
    by simp
  from w b have 3: "DeleteGroup opened 7 = (sent (Exec ''DELETE FROM groups'') opened, Some (ErrGroupNotFound 7))"
    by simp
  from w d have 4: "DeleteTask opened 7 = (sent (Exec ''DELETE FROM tasks'') opened, Some (ErrTaskNotFound 7))"
    by simp
  from z have 5: "DeleteGroup opened 0 = (opened, Some ErrInvalidGroupID)"
    and 6: "DeleteTask opened 0 = (opened, Some ErrInvalidTaskID)" by simp_all
  from a b c d 3 4 5 6 show ?thesis
    unfolding 1 2 by (simp add: issued_sent)
qed

section \<open>C10: negative ids\<close>

text \<open>
  C10: no row of a reachable store has an id below 1; so \<^verbatim>\<open>UpsertGroup\<close> and \<^verbatim>\<open>UpsertTask\<close> with
  a negative id and an otherwise valid request take the update path, whose \<^verbatim>\<open>UPDATE\<close>
  affects no row, fail with the not-found error of that id, and leave the tables as they
  were.
\<close>

theorem C10_negative_id:
  assumes "reachable s" "i < 0"
  shows "list_all (\<lambda>g. 0 < g_ID g) (groups s) \<and> list_all (\<lambda>r. 0 < r_id r) (tasks s)
         \<and> (valid_name (TrimSpace name) \<longrightarrow>
              snd (UpsertGroup now s i name) = Inl (ErrGroupNotFound i)
              \<and> issued s (fst (UpsertGroup now s i name)) = [Exec ''UPDATE groups'']
              \<and> content (fst (UpsertGroup now s i name)) = content s)
         \<and> (valid_task s req \<and> t_ID req = i \<longrightarrow>
              snd (UpsertTask now s req) = Inl (ErrTaskNotFound i)
              \<and> issued s (fst (UpsertTask now s req))
                   = [Query ''SELECT id FROM groups WHERE id'', Exec ''UPDATE tasks'']
              \<and> content (fst (UpsertTask now s req)) = content s)"
proof -
  from reachable_inv [OF assms(1)] have g: "list_all (\<lambda>g. 0 < g_ID g) (groups s)"
    and t: "list_all (\<lambda>r. 0 < r_id r) (tasks s)"
    by (simp_all add: store_inv_def list_all_iff)
  from g assms(2) have ng: "i \<notin> set (map g_ID (groups s))" by (auto simp add: list_all_iff)
  from t assms(2) have nt: "i \<notin> set (map r_id (tasks s))" by (auto simp add: list_all_iff)
  from assms(2) have nz: "i \<noteq> 0" by simp
  have 1: "snd (UpsertGroup now s i name) = Inl (ErrGroupNotFound i)
              \<and> issued s (fst (UpsertGroup now s i name)) = [Exec ''UPDATE groups'']
              \<and> content (fst (UpsertGroup now s i name)) = content s"
    if "valid_name (TrimSpace name)"
    unfolding UpsertGroup_update_missing [OF that nz ng] by (simp add: issued_sent)
  have 2: "snd (UpsertTask now s req) = Inl (ErrTaskNotFound i)
              \<and> issued s (fst (UpsertTask now s req))
                   = [Query ''SELECT id FROM groups WHERE id'', Exec ''UPDATE tasks'']
              \<and> content (fst (UpsertTask now s req)) = content s"
    if v: "valid_task s req" and e: "t_ID req = i"
  proof -
    from e nz nt have "t_ID req \<noteq> 0" "t_ID req \<notin> set (map r_id (tasks s))" by simp_all
    from UpsertTask_update_missing [OF v this, of now] e show ?thesis
      by (simp add: asked_def issued_sent)
  qed
  from g t 1 2 show ?thesis by blast
qed

theorem C10_negative_id_witness:
  "reachable opened \<and> (- 4 :: int) < 0
   \<and> valid_name (TrimSpace ''Work'')
   \<and> UpsertGroup 5 opened (- 4) ''Work'' = (sent (Exec ''UPDATE groups'') opened, Inl (ErrGroupNotFound (- 4)))
   \<and> valid_task opened (sample_task\<lparr>t_ID := - 4\<rparr>)
   \<and> snd (UpsertTask 5 opened (sample_task\<lparr>t_ID := - 4\<rparr>)) = Inl (ErrTaskNotFound (- 4))
   \<and> content (fst (UpsertTask 5 opened (sample_task\<lparr>t_ID := - 4\<rparr>))) = content opened"
proof -
  have r: "reachable opened" unfolding opened_def by (intro reachable.intros)
  have n: "(- 4 :: int) < 0" by simp
  have a: "valid_name (TrimSpace ''Work'')" by code_simp
  have c: "valid_task opened (sample_task\<lparr>t_ID := - 4\<rparr>)" by code_simp
  have e: "t_ID (sample_task\<lparr>t_ID := - 4\<rparr>) = - 4" by simp
  have u: "UpsertGroup 5 opened (- 4) ''Work'' = (sent (Exec ''UPDATE groups'') opened, Inl (ErrGroupNotFound (- 4)))"
    by code_simp
  note w = C10_negative_id [OF r n, of "''Work''" 5 "sample_task\<lparr>t_ID := - 4\<rparr>"]
  from w c e have 2: "snd (UpsertTask 5 opened (sample_task\<lparr>t_ID := - 4\<rparr>)) = Inl (ErrTaskNotFound (- 4))"
    and 3: "content (fst (UpsertTask 5 opened (sample_task\<lparr>t_ID := - 4\<rparr>))) = content opened"
    by simp_all
  from r n a u c 2 3 show ?thesis by (intro conjI)
qed

section \<open>C4: validation comes before any write\<close>

text \<open>The errors with which \<^verbatim>\<open>UpsertTask\<close> refuses a request.\<close>

fun task_validation_error :: "error \<Rightarrow> bool" where
  "task_validation_error ErrSelectGroup = True"
| "task_validation_error (ErrGroupNotFound _) = True"
| "task_validation_error ErrTaskTitleEmpty = True"
| "task_validation_error ErrTaskTitleTooLong = True"
| "task_validation_error ErrTaskContentTooLong = True"
| "task_validation_error (ErrInvalidStatus _) = True"
| "task_validation_error _ = False"

lemma UpsertGroup_valid_result:
  assumes "valid_name (TrimSpace name)"
  shows "snd (UpsertGroup now s i name) \<noteq> Inl ErrGroupNameEmpty
       \<and> snd (UpsertGroup now s i name) \<noteq> Inl ErrGroupNameTooLong"
proof (cases "i = 0")
  case True
  show ?thesis
  proof (cases "TrimSpace name \<in> set (map g_Name (groups s))")
    case dup: True
    from UpsertGroup_insert_dup [OF assms dup, of now] True show ?thesis by simp
  next
    case False
    from UpsertGroup_insert_ok [OF assms False, of now] True show ?thesis by simp
  qed
next
  case nz: False
  show ?thesis
  proof (cases "i \<in> set (map g_ID (groups s))")
    case False
    from UpsertGroup_update_missing [OF assms nz False, of now] show ?thesis by simp
  next
    case True
    show ?thesis
    proof (cases "TrimSpace name \<in> set (map g_Name (filter (\<lambda>g. g_ID g \<noteq> i) (groups s)))")
      case dup: True
      from UpsertGroup_update_dup [OF assms nz True dup, of now] show ?thesis by simp
    next
      case False
      from nz show ?thesis
        unfolding UpsertGroup_valid [OF assms] update_group_ok [OF True False]
        by (simp add: select_group_def split: option.splits)
    qed
  qed
qed

lemma UpsertGroup_refused:
  assumes "snd (UpsertGroup now s i name) = Inl ErrGroupNameEmpty
         \<or> snd (UpsertGroup now s i name) = Inl ErrGroupNameTooLong"
  shows "fst (UpsertGroup now s i name) = s"
proof (cases "valid_name (TrimSpace name)")
  case True
  from UpsertGroup_valid_result [OF True, of now s i] assms show ?thesis by blast
next
  case False
  then have "TrimSpace name = [] \<or> maxGroupNameRunes < RuneCountInString (TrimSpace name)"
    by (auto simp add: valid_name_def)
  then show ?thesis using UpsertGroup_empty [of name now s i] UpsertGroup_long [of name now s i] by auto
qed

lemma UpsertTask_valid_result:
  assumes "valid_task s req" "snd (UpsertTask now s req) = Inl e"
  shows "\<not> task_validation_error e"
proof (cases "t_ID req = 0")
  case True
  from UpsertTask_insert [OF assms(1) True, of now] assms(2) show ?thesis by simp
next
  case nz: False
  show ?thesis
  proof (cases "t_ID req \<in> set (map r_id (tasks s))")
    case False
    from UpsertTask_update_missing [OF assms(1) nz False, of now] assms(2) show ?thesis by auto
  next
    case True
    from assms(1) have c: "row_checks (t_Status req) (boolTo01Int (t_Important req)) (boolTo01Int (t_Urgent req))"
      and g: "has_group (asked s) (t_GroupID req)"
      by (simp_all add: valid_task_def row_checks_valid asked_def)
    from True have i: "t_ID req \<in> set (map r_id (tasks (asked s)))" by (simp add: asked_def)
    from assms(2) nz show ?thesis
      unfolding UpsertTask_valid [OF assms(1)] update_task_ok [OF c g i]
      by (auto simp add: select_task_def split: if_splits option.splits sum.splits)
  qed
qed

lemma UpsertTask_invalid:
  assumes "\<not> valid_task s req"
  shows "fst (UpsertTask now s req) = s \<or> fst (UpsertTask now s req) = asked s"
proof -
  from assms consider "t_GroupID req \<le> 0"
    | "0 < t_GroupID req" "\<not> has_group s (t_GroupID req)"
    | "0 < t_GroupID req" "has_group s (t_GroupID req)" "TrimSpace (t_Title req) = []"
    | "0 < t_GroupID req" "has_group s (t_GroupID req)" "TrimSpace (t_Title req) \<noteq> []"
      "maxTaskTitleRunes < RuneCountInString (TrimSpace (t_Title req))"
    | "0 < t_GroupID req" "has_group s (t_GroupID req)" "TrimSpace (t_Title req) \<noteq> []"
      "RuneCountInString (TrimSpace (t_Title req)) \<le> maxTaskTitleRunes"
      "maxTaskContentRunes < RuneCountInString (TrimSpace (t_Content req))"
    | "0 < t_GroupID req" "has_group s (t_GroupID req)" "TrimSpace (t_Title req) \<noteq> []"
      "RuneCountInString (TrimSpace (t_Title req)) \<le> maxTaskTitleRunes"
      "RuneCountInString (TrimSpace (t_Content req)) \<le> maxTaskContentRunes"
      "\<not> valid_status (t_Status req)"
    unfolding valid_task_def by linarith
  then show ?thesis
    by cases (simp_all add: UpsertTask_no_group UpsertTask_missing_group UpsertTask_title_empty
        UpsertTask_title_long UpsertTask_content_long UpsertTask_bad_status)
qed

lemma UpsertTask_refused:
  assumes "snd (UpsertTask now s req) = Inl e" "task_validation_error e"
  shows "content (fst (UpsertTask now s req)) = content s
       \<and> filter is_write (issued s (fst (UpsertTask now s req))) = []"
proof -
  from UpsertTask_valid_result [of s req now e] assms have "\<not> valid_task s req" by blast
  from UpsertTask_invalid [OF this, of now] show ?thesis
    by (auto simp add: asked_def issued_sent)
qed

lemma Delete_refused:
  "snd (DeleteGroup s i) = Some ErrInvalidGroupID \<Longrightarrow> fst (DeleteGroup s i) = s"
  "snd (DeleteTask s i) = Some ErrInvalidTaskID \<Longrightarrow> fst (DeleteTask s i) = s"
  by (auto simp add: DeleteGroup_def DeleteTask_def delete_group_def delete_task_def Let_def split: if_splits)


text \<open>
  C4: when \<^verbatim>\<open>UpsertGroup\<close> refuses a name (empty, too long) and when \<^verbatim>\<open>DeleteGroup\<close> or
  \<^verbatim>\<open>DeleteTask\<close> refuses an id, nothing was sent and the store is as before; when \<^verbatim>\<open>UpsertTask\<close>
  refuses a request, no write was sent (at most the read of the group) and the tables are
  as before. \<^verbatim>\<open>UpsertTask\<close> checks in this order: the group id is positive, the group exists,
  the trimmed title is not empty, the title is within its limit, the content is within its
  limit, the status is one of the three; each check decides as soon as the ones before it
  have passed, whatever the later ones would say.
\<close>

theorem C4_validation_first:
  "(snd (UpsertGroup now s i name) = Inl ErrGroupNameEmpty
      \<or> snd (UpsertGroup now s i name) = Inl ErrGroupNameTooLong \<longrightarrow>
      fst (UpsertGroup now s i name) = s)
   \<and> (snd (DeleteGroup s i) = Some ErrInvalidGroupID \<longrightarrow> fst (DeleteGroup s i) = s)
   \<and> (snd (DeleteTask s i) = Some ErrInvalidTaskID \<longrightarrow> fst (DeleteTask s i) = s)
   \<and> (snd (UpsertTask now s req) = Inl e \<and> task_validation_error e \<longrightarrow>
        content (fst (UpsertTask now s req)) = content s
        \<and> filter is_write (issued s (fst (UpsertTask now s req))) = [])
   \<and> (t_GroupID req \<le> 0 \<longrightarrow> snd (UpsertTask now s req) = Inl ErrSelectGroup)
   \<and> (0 < t_GroupID req \<and> \<not> has_group s (t_GroupID req) \<longrightarrow>
        snd (UpsertTask now s req) = Inl (ErrGroupNotFound (t_GroupID req)))
   \<and> (0 < t_GroupID req \<and> has_group s (t_GroupID req) \<and> TrimSpace (t_Title req) = [] \<longrightarrow>
        snd (UpsertTask now s req) = Inl ErrTaskTitleEmpty)
   \<and> (0 < t_GroupID req \<and> has_group s (t_GroupID req) \<and> TrimSpace (t_Title req) \<noteq> []
        \<and> maxTaskTitleRunes < RuneCountInString (TrimSpace (t_Title req)) \<longrightarrow>
        snd (UpsertTask now s req) = Inl ErrTaskTitleTooLong)
   \<and> (0 < t_GroupID req \<and> has_group s (t_GroupID req) \<and> TrimSpace (t_Title req) \<noteq> []
        \<and> RuneCountInString (TrimSpace (t_Title req)) \<le> maxTaskTitleRunes
        \<and> maxTaskContentRunes < RuneCountInString (TrimSpace (t_Content req)) \<longrightarrow>
        snd (UpsertTask now s req) = Inl ErrTaskContentTooLong)
   \<and> (0 < t_GroupID req \<and> has_group s (t_GroupID req) \<and> TrimSpace (t_Title req) \<noteq> []
        \<and> RuneCountInString (TrimSpace (t_Title req)) \<le> maxTaskTitleRunes
        \<and> RuneCountInString (TrimSpace (t_Content req)) \<le> maxTaskContentRunes
        \<and> \<not> valid_status (t_Status req) \<longrightarrow>
        snd (UpsertTask now s req) = Inl (ErrInvalidStatus (t_Status req)))"
proof -
  have 1: "snd (UpsertGroup now s i name) = Inl ErrGroupNameEmpty
      \<or> snd (UpsertGroup now s i name) = Inl ErrGroupNameTooLong \<longrightarrow>
      fst (UpsertGroup now s i name) = s"
    using UpsertGroup_refused [of now s i name] by blast
  have 2: "snd (DeleteGroup s i) = Some ErrInvalidGroupID \<longrightarrow> fst (DeleteGroup s i) = s"
    using Delete_refused(1) [of s i] by blast
  have 3: "snd (DeleteTask s i) = Some ErrInvalidTaskID \<longrightarrow> fst (DeleteTask s i) = s"
    using Delete_refused(2) [of s i] by blast
  have 4: "snd (UpsertTask now s req) = Inl e \<and> task_validation_error e \<longrightarrow>
        content (fst (UpsertTask now s req)) = content s
        \<and> filter is_write (issued s (fst (UpsertTask now s req))) = []"
    using UpsertTask_refused [of now s req e] by blast
  have 5: "t_GroupID req \<le> 0 \<longrightarrow> snd (UpsertTask now s req) = Inl ErrSelectGroup"
    by (simp add: UpsertTask_no_group)
  have 6: "0 < t_GroupID req \<and> \<not> has_group s (t_GroupID req) \<longrightarrow>
        snd (UpsertTask now s req) = Inl (ErrGroupNotFound (t_GroupID req))"
    by (simp add: UpsertTask_missing_group)
  have 7: "0 < t_GroupID req \<and> has_group s (t_GroupID req) \<and> TrimSpace (t_Title req) = [] \<longrightarrow>
        snd (UpsertTask now s req) = Inl ErrTaskTitleEmpty"
    by (simp add: UpsertTask_title_empty)
  have 8: "0 < t_GroupID req \<and> has_group s (t_GroupID req) \<and> TrimSpace (t_Title req) \<noteq> []
        \<and> maxTaskTitleRunes < RuneCountInString (TrimSpace (t_Title req)) \<longrightarrow>
        snd (UpsertTask now s req) = Inl ErrTaskTitleTooLong"
    by (simp add: UpsertTask_title_long)
  have 9: "0 < t_GroupID req \<and> has_group s (t_GroupID req) \<and> TrimSpace (t_Title req) \<noteq> []
        \<and> RuneCountInString (TrimSpace (t_Title req)) \<le> maxTaskTitleRunes
        \<and> maxTaskContentRunes < RuneCountInString (TrimSpace (t_Content req)) \<longrightarrow>
        snd (UpsertTask now s req) = Inl ErrTaskContentTooLong"
    by (simp add: UpsertTask_content_long)
  have 10: "0 < t_GroupID req \<and> has_group s (t_GroupID req) \<and> TrimSpace (t_Title req) \<noteq> []
        \<and> RuneCountInString (TrimSpace (t_Title req)) \<le> maxTaskTitleRunes
        \<and> RuneCountInString (TrimSpace (t_Content req)) \<le> maxTaskContentRunes
        \<and> \<not> valid_status (t_Status req) \<longrightarrow>
        snd (UpsertTask now s req) = Inl (ErrInvalidStatus (t_Status req))"
    by (simp add: UpsertTask_bad_status)
  from 1 2 3 4 5 6 7 8 9 10 show ?thesis by (intro conjI)
qed

definition bad_task :: Task where
  "bad_task = \<lparr>t_ID = 0, t_GroupID = 1, t_Title = ''   '', t_Content = [],
     t_Status = ''archived'', t_Important = False, t_Urgent = False, t_CreatedAt = 0, t_UpdatedAt = 0\<rparr>"

theorem C4_validation_first_witness:
  "UpsertGroup 5 opened 0 ''  '' = (opened, Inl ErrGroupNameEmpty)
   \<and> DeleteGroup opened 0 = (opened, Some ErrInvalidGroupID)
   \<and> DeleteTask opened (- 1) = (opened, Some ErrInvalidTaskID)
   \<and> has_group opened 1 \<and> TrimSpace (t_Title bad_task) = [] \<and> \<not> valid_status (t_Status bad_task)
   \<and> snd (UpsertTask 5 opened bad_task) = Inl ErrTaskTitleEmpty
   \<and> content (fst (UpsertTask 5 opened bad_task)) = content opened
   \<and> filter is_write (issued opened (fst (UpsertTask 5 opened bad_task))) = []
   \<and> \<not> has_group opened 9
   \<and> snd (UpsertTask 5 opened (bad_task\<lparr>t_GroupID := 9\<rparr>)) = Inl (ErrGroupNotFound 9)
   \<and> snd (UpsertTask 5 opened (bad_task\<lparr>t_Title := ''x''\<rparr>)) = Inl (ErrInvalidStatus ''archived'')"
proof -
  have a: "snd (UpsertGroup 5 opened 0 ''  '') = Inl ErrGroupNameEmpty" by code_simp
  have b: "snd (DeleteGroup opened 0) = Some ErrInvalidGroupID" by code_simp
  have c: "snd (DeleteTask opened (- 1)) = Some ErrInvalidTaskID" by code_simp
  have d: "has_group opened 1" "TrimSpace (t_Title bad_task) = []" "\<not> valid_status (t_Status bad_task)"
    "t_GroupID bad_task = 1" by code_simp+
  have e: "\<not> has_group opened 9" by code_simp
  have f: "TrimSpace ''x'' = ''x''" "RuneCountInString ''x'' = 1" "RuneCountInString [] = 0"
    "TrimSpace (t_Content bad_task) = []" "t_Status bad_task = ''archived''" by code_simp+
  note w1 = C4_validation_first [of 5 opened 0 "''  ''" "bad_task" ErrTaskTitleEmpty]
  note w2 = C4_validation_first [of 5 opened "- 1" "''  ''" "bad_task\<lparr>t_GroupID := 9\<rparr>" ErrTaskTitleEmpty]
  note w3 = C4_validation_first [of 5 opened 0 "''  ''" "bad_task\<lparr>t_Title := ''x''\<rparr>" ErrTaskTitleEmpty]
  from w1 a have 1: "fst (UpsertGroup 5 opened 0 ''  '') = opened" by blast
  from w1 b have 2: "fst (DeleteGroup opened 0) = opened" by blast
  from w2 c have 3: "fst (DeleteTask opened (- 1)) = opened" by blast
  from w1 d have 4: "snd (UpsertTask 5 opened bad_task) = Inl ErrTaskTitleEmpty" by simp
  with w1 have 5: "content (fst (UpsertTask 5 opened bad_task)) = content opened"
    and 6: "filter is_write (issued opened (fst (UpsertTask 5 opened bad_task))) = []" by simp_all
  from w2 e have 7: "snd (UpsertTask 5 opened (bad_task\<lparr>t_GroupID := 9\<rparr>)) = Inl (ErrGroupNotFound 9)"
    by simp
  from w3 d f have 8: "snd (UpsertTask 5 opened (bad_task\<lparr>t_Title := ''x''\<rparr>)) = Inl (ErrInvalidStatus ''archived'')"
    by (simp add: maxTaskTitleRunes_def maxTaskContentRunes_def del: RuneCountInString.simps)
  from a 1 have A: "UpsertGroup 5 opened 0 ''  '' = (opened, Inl ErrGroupNameEmpty)" by (simp add: prod_eq_iff)
  from b 2 have B: "DeleteGroup opened 0 = (opened, Some ErrInvalidGroupID)" by (simp add: prod_eq_iff)
  from c 3 have C: "DeleteTask opened (- 1) = (opened, Some ErrInvalidTaskID)" by (simp add: prod_eq_iff)
  from A B C d(1,2,3) 4 5 6 e 7 8 show ?thesis by (intro conjI)
qed

section \<open>C3: limits in code points\<close>

text \<open>The rune U+4E2D, three bytes in UTF-8.\<close>

definition zhong :: string where
  "zhong = [CHR 0xE4, CHR 0xB8, CHR 0xAD]"

lemma RuneCount_zhong: "RuneCountInString (zhong @ s) = Suc (RuneCountInString s)"
  by (simp add: zhong_def rune_width_def byte_def in_range_def)

lemma RuneCount_zhongs: "RuneCountInString (concat (replicate n zhong)) = n"
  by (induction n) (simp_all add: RuneCount_zhong del: RuneCountInString.simps(2))

lemma RuneCount_ascii: "byte c < 0x80 \<Longrightarrow> RuneCountInString (replicate n c) = n"
  by (induction n) (simp_all add: rune_width_def)

definition plain :: "char \<Rightarrow> bool" where
  "plain c = (byte c < 0x80 \<and> \<not> is_space1 (byte c))"

lemma TrimSpace_plain:
  assumes "s \<noteq> []" "plain (hd s)" "plain (last s)"
  shows "TrimSpace s = s"
proof -
  from assms obtain c cs where s: "s = c # cs" by (cases s) auto
  with assms have "leading_space s = 0" by (simp add: leading_space_ascii plain_def)
  then have l: "trimLeft s = s" by (subst trimLeft.simps) simp
  from assms have r: "rev s = last s # rev (butlast s)"
    by (metis append_butlast_last_id rev.simps(2) rev_append rev_rev_ident append_Nil append_Cons)
  from assms have "trailing_space (last s # rev (butlast s)) = 0"
    by (intro trailing_space_ascii) (simp_all add: plain_def)
  then have "trailing_space (rev s) = 0" by (simp only: r)
  then have "trimRightRev (rev s) = rev s" by (subst trimRightRev.simps) simp
  with l show ?thesis by (simp add: TrimSpace_def)
qed

lemma TrimSpace_replicate: "plain c \<Longrightarrow> 0 < n \<Longrightarrow> TrimSpace (replicate n c) = replicate n c"
  by (rule TrimSpace_plain) (simp_all add: hd_replicate last_replicate)

lemma UpsertGroup_too_long_iff:
  "(snd (UpsertGroup now s i name) = Inl ErrGroupNameTooLong)
     = (maxGroupNameRunes < RuneCountInString (TrimSpace name))"
proof (cases "maxGroupNameRunes < RuneCountInString (TrimSpace name)")
  case True
  with UpsertGroup_long [OF True, of now s i] show ?thesis by simp
next
  case False
  show ?thesis
  proof (cases "TrimSpace name = []")
    case True
    with False UpsertGroup_empty [OF True, of now s i] show ?thesis by simp
  next
    case ne: False
    with False have "valid_name (TrimSpace name)" by (simp add: valid_name_def)
    from UpsertGroup_valid_result [OF this, of now s i] False show ?thesis by simp
  qed
qed

lemma UpsertTask_too_long_iff:
  assumes "0 < t_GroupID req" "has_group s (t_GroupID req)" "TrimSpace (t_Title req) \<noteq> []"
  shows "(snd (UpsertTask now s req) = Inl ErrTaskTitleTooLong)
           = (maxTaskTitleRunes < RuneCountInString (TrimSpace (t_Title req)))"
    and "RuneCountInString (TrimSpace (t_Title req)) \<le> maxTaskTitleRunes \<Longrightarrow>
         (snd (UpsertTask now s req) = Inl ErrTaskContentTooLong)
           = (maxTaskContentRunes < RuneCountInString (TrimSpace (t_Content req)))"
proof -
  let ?t = "RuneCountInString (TrimSpace (t_Title req))"
  let ?c = "RuneCountInString (TrimSpace (t_Content req))"
  have v: "\<not> task_validation_error e" if "valid_task s req" "snd (UpsertTask now s req) = Inl e" for e
    using UpsertTask_valid_result [OF that] .
  consider (t) "maxTaskTitleRunes < ?t"
    | (c) "?t \<le> maxTaskTitleRunes" "maxTaskContentRunes < ?c"
    | (s) "?t \<le> maxTaskTitleRunes" "?c \<le> maxTaskContentRunes" "\<not> valid_status (t_Status req)"
    | (ok) "?t \<le> maxTaskTitleRunes" "?c \<le> maxTaskContentRunes" "valid_status (t_Status req)"
    by linarith
  then have "(snd (UpsertTask now s req) = Inl ErrTaskTitleTooLong) = (maxTaskTitleRunes < ?t)
     \<and> (?t \<le> maxTaskTitleRunes \<longrightarrow>
         (snd (UpsertTask now s req) = Inl ErrTaskContentTooLong) = (maxTaskContentRunes < ?c))"
  proof cases
    case t
    with UpsertTask_title_long [OF assms t, of now] show ?thesis by simp
  next
    case c
    with UpsertTask_content_long [OF assms c, of now] show ?thesis by simp
  next
    case s
    with UpsertTask_bad_status [OF assms s, of now] show ?thesis by simp
  next
    case ok
    with assms have "valid_task s req" by (simp add: valid_task_def)
    from v [OF this, of ErrTaskTitleTooLong] v [OF this, of ErrTaskContentTooLong] ok show ?thesis
      by auto
  qed
  then show "(snd (UpsertTask now s req) = Inl ErrTaskTitleTooLong) = (maxTaskTitleRunes < ?t)"
    and "?t \<le> maxTaskTitleRunes \<Longrightarrow>
         (snd (UpsertTask now s req) = Inl ErrTaskContentTooLong) = (maxTaskContentRunes < ?c)"
    by simp_all
qed


lemma TrimSpace_zhongs:
  assumes "0 < n"
  shows "TrimSpace (concat (replicate n zhong)) = concat (replicate n zhong)"
proof -
  from assms obtain m where n: "n = Suc m" by (cases n) auto
  let ?s = "concat (replicate n zhong)"
  have "?s = zhong @ concat (replicate m zhong)" by (simp add: n)
  then have "leading_space ?s = 0"
    by (simp add: zhong_def byte_def is_space1_def is_space2_def is_space3_def in_range_def)
  then have l: "trimLeft ?s = ?s" by (subst trimLeft.simps) simp
  have "replicate n zhong = replicate m zhong @ [zhong]" unfolding n by (simp add: replicate_append_same)
  then have "rev ?s = rev zhong @ rev (concat (replicate m zhong))" by simp
  then have "trailing_space (rev ?s) = 0"
    by (simp add: zhong_def byte_def is_space1_def is_space2_def is_space3_def in_range_def)
  then have "trimRightRev (rev ?s) = rev ?s" by (subst trimRightRev.simps) simp
  with l show ?thesis by (simp add: TrimSpace_def)
qed

lemma length_zhongs: "length (concat (replicate n zhong)) = 3 * n"
  by (induction n) (simp_all add: zhong_def)

text \<open>
  C3: the limits are 50, 200 and 1000 and are compared with the number of runes of the
  trimmed text. \<^verbatim>\<open>UpsertGroup\<close> returns the too-long error exactly when the trimmed name has
  more than 50 runes, and with a trimmed name of 1 to 50 runes that no group has it inserts
  the group; \<^verbatim>\<open>UpsertTask\<close>, once the group and the title's presence are settled, returns the
  title's too-long error exactly above 200 runes and, with the title within its limit, the
  content's exactly above 1000, and a valid request is inserted. A string of \<open>n\<close> copies of
  the three-byte rune U+4E2D counts as \<open>n\<close> though it has \<open>3 n\<close> bytes.
\<close>

theorem C3_rune_limits:
  "maxGroupNameRunes = 50 \<and> maxTaskTitleRunes = 200 \<and> maxTaskContentRunes = 1000
   \<and> (snd (UpsertGroup now s i name) = Inl ErrGroupNameTooLong)
        = (50 < RuneCountInString (TrimSpace name))
   \<and> (TrimSpace name \<noteq> [] \<and> RuneCountInString (TrimSpace name) \<le> 50
        \<and> TrimSpace name \<notin> set (map g_Name (groups s)) \<longrightarrow>
        (\<exists>g. snd (UpsertGroup now s 0 name) = Inr g \<and> g_Name g = TrimSpace name))
   \<and> (0 < t_GroupID req \<and> has_group s (t_GroupID req) \<and> TrimSpace (t_Title req) \<noteq> [] \<longrightarrow>
        (snd (UpsertTask now s req) = Inl ErrTaskTitleTooLong)
          = (200 < RuneCountInString (TrimSpace (t_Title req)))
        \<and> (RuneCountInString (TrimSpace (t_Title req)) \<le> 200 \<longrightarrow>
            (snd (UpsertTask now s req) = Inl ErrTaskContentTooLong)
              = (1000 < RuneCountInString (TrimSpace (t_Content req)))))
   \<and> (valid_task s req \<and> t_ID req = 0 \<longrightarrow>
        (\<exists>t. snd (UpsertTask now s req) = Inr t \<and> t_Title t = TrimSpace (t_Title req)
              \<and> t_Content t = TrimSpace (t_Content req)))
   \<and> RuneCountInString (concat (replicate n zhong)) = n
   \<and> length (concat (replicate n zhong)) = 3 * n"
proof -
  have 1: "(snd (UpsertGroup now s i name) = Inl ErrGroupNameTooLong)
        = (50 < RuneCountInString (TrimSpace name))"
    using UpsertGroup_too_long_iff [of now s i name] by (simp add: maxGroupNameRunes_def)
  have 2: "TrimSpace name \<noteq> [] \<and> RuneCountInString (TrimSpace name) \<le> 50
        \<and> TrimSpace name \<notin> set (map g_Name (groups s)) \<longrightarrow>
        (\<exists>g. snd (UpsertGroup now s 0 name) = Inr g \<and> g_Name g = TrimSpace name)"
  proof (intro impI, elim conjE)
    assume a: "TrimSpace name \<noteq> []" "RuneCountInString (TrimSpace name) \<le> 50"
      and b: "TrimSpace name \<notin> set (map g_Name (groups s))"
    from a have v: "valid_name (TrimSpace name)" by (simp add: valid_name_def maxGroupNameRunes_def)
    from UpsertGroup_insert_ok [OF v b, of now]
    show "\<exists>g. snd (UpsertGroup now s 0 name) = Inr g \<and> g_Name g = TrimSpace name" by simp
  qed
  have 3: "0 < t_GroupID req \<and> has_group s (t_GroupID req) \<and> TrimSpace (t_Title req) \<noteq> [] \<longrightarrow>
        (snd (UpsertTask now s req) = Inl ErrTaskTitleTooLong)
          = (200 < RuneCountInString (TrimSpace (t_Title req)))
        \<and> (RuneCountInString (TrimSpace (t_Title req)) \<le> 200 \<longrightarrow>
            (snd (UpsertTask now s req) = Inl ErrTaskContentTooLong)
              = (1000 < RuneCountInString (TrimSpace (t_Content req))))"
    using UpsertTask_too_long_iff [of req s now]
    by (simp add: maxTaskTitleRunes_def maxTaskContentRunes_def)
  have 4: "valid_task s req \<and> t_ID req = 0 \<longrightarrow>
        (\<exists>t. snd (UpsertTask now s req) = Inr t \<and> t_Title t = TrimSpace (t_Title req)
              \<and> t_Content t = TrimSpace (t_Content req))"
  proof (intro impI, elim conjE)
    assume "valid_task s req" "t_ID req = 0"
    from UpsertTask_insert [OF this, of now]
    show "\<exists>t. snd (UpsertTask now s req) = Inr t \<and> t_Title t = TrimSpace (t_Title req)
              \<and> t_Content t = TrimSpace (t_Content req)"
      by (simp add: trimmed_def)
  qed
  from 1 2 3 4 show ?thesis
    by (simp only: maxGroupNameRunes_def maxTaskTitleRunes_def maxTaskContentRunes_def
        RuneCount_zhongs length_zhongs simp_thms)
qed


definition long_task :: "nat \<Rightarrow> nat \<Rightarrow> Task" where
  "long_task m n = \<lparr>t_ID = 0, t_GroupID = 1, t_Title = replicate m CHR ''a'', t_Content = replicate n CHR ''b'',
     t_Status = ''doing'', t_Important = False, t_Urgent = True, t_CreatedAt = 0, t_UpdatedAt = 0\<rparr>"

lemma long_task_trimmed:
  assumes "0 < m" "0 < n"
  shows "TrimSpace (t_Title (long_task m n)) = replicate m CHR ''a''"
    and "TrimSpace (t_Content (long_task m n)) = replicate n CHR ''b''"
    and "RuneCountInString (TrimSpace (t_Title (long_task m n))) = m"
    and "RuneCountInString (TrimSpace (t_Content (long_task m n))) = n"
proof -
  have a: "plain CHR ''a''" "plain CHR ''b''" by code_simp+
  from a assms show t: "TrimSpace (t_Title (long_task m n)) = replicate m CHR ''a''"
    and c: "TrimSpace (t_Content (long_task m n)) = replicate n CHR ''b''"
    by (simp_all add: long_task_def TrimSpace_replicate)
  from a show "RuneCountInString (TrimSpace (t_Title (long_task m n))) = m"
    and "RuneCountInString (TrimSpace (t_Content (long_task m n))) = n"
    unfolding t c by (simp_all add: RuneCount_ascii plain_def)
qed

theorem C3_rune_limits_witness:
  "RuneCountInString (TrimSpace (concat (replicate 50 zhong))) = 50
   \<and> length (concat (replicate 50 zhong)) = 150
   \<and> (\<exists>g. snd (UpsertGroup 5 opened 0 (concat (replicate 50 zhong))) = Inr g
          \<and> g_Name g = concat (replicate 50 zhong))
   \<and> snd (UpsertGroup 5 opened 0 (concat (replicate 51 zhong))) = Inl ErrGroupNameTooLong
   \<and> (\<exists>t. snd (UpsertTask 5 opened (long_task 200 1000)) = Inr t
          \<and> t_Title t = replicate 200 CHR ''a'' \<and> t_Content t = replicate 1000 CHR ''b'')
   \<and> snd (UpsertTask 5 opened (long_task 201 1000)) = Inl ErrTaskTitleTooLong
   \<and> snd (UpsertTask 5 opened (long_task 200 1001)) = Inl ErrTaskContentTooLong"
proof -
  let ?z = "concat (replicate 50 zhong)"
  have t50: "TrimSpace ?z = ?z" and t51: "TrimSpace (concat (replicate 51 zhong)) = concat (replicate 51 zhong)"
    by (simp_all add: TrimSpace_zhongs)
  have l: "length ?z = 150" by (simp add: length_zhongs)
  then have ne: "?z \<noteq> []" by auto
  have "map g_Name (groups opened) = [defaultName]" by code_simp
  moreover have "length defaultName = 6" by (simp add: defaultName_def)
  ultimately have new: "?z \<notin> set (map g_Name (groups opened))" using l by auto
  have g: "has_group opened 1" by code_simp
  have i: "t_GroupID (long_task m n) = 1" "t_ID (long_task m n) = 0" "valid_status (t_Status (long_task m n))" for m n
    by (simp_all add: long_task_def valid_status_def)
  have rc: "RuneCountInString (replicate k CHR ''a'') = k" "RuneCountInString (replicate k CHR ''b'') = k" for k
    by (simp_all add: RuneCount_ascii byte_def)
  note a = long_task_trimmed(1,2) [of 200 1000, simplified] rc
  note b = long_task_trimmed(1,2) [of 201 1000, simplified] rc
  note c = long_task_trimmed(1,2) [of 200 1001, simplified] rc
  have v: "valid_task opened (long_task 200 1000)"
    using g by (simp add: valid_task_def i a maxTaskTitleRunes_def maxTaskContentRunes_def)
  note w1 = C3_rune_limits [of 5 opened 0 ?z "long_task 200 1000" 50, THEN conjunct2, THEN conjunct2, THEN conjunct2]
  note w2 = C3_rune_limits [of 5 opened 0 "concat (replicate 51 zhong)" "long_task 201 1000" 51, THEN conjunct2, THEN conjunct2, THEN conjunct2]
  note w3 = C3_rune_limits [of 5 opened 0 ?z "long_task 200 1001" 50, THEN conjunct2, THEN conjunct2, THEN conjunct2]
  from w1 have 1: "RuneCountInString (TrimSpace ?z) = 50" unfolding t50 by (elim conjE)
  from w1 [THEN conjunct2, THEN conjunct1] new ne 1
  have 2: "\<exists>g. snd (UpsertGroup 5 opened 0 ?z) = Inr g \<and> g_Name g = ?z"
    unfolding t50 by simp
  from w2 have "RuneCountInString (concat (replicate 51 zhong)) = 51" by (elim conjE)
  with w2 [THEN conjunct1] have 3: "snd (UpsertGroup 5 opened 0 (concat (replicate 51 zhong))) = Inl ErrGroupNameTooLong"
    unfolding t51 by simp
  from w1 [THEN conjunct2, THEN conjunct2, THEN conjunct2, THEN conjunct1] v
  have 4: "\<exists>t. snd (UpsertTask 5 opened (long_task 200 1000)) = Inr t
          \<and> t_Title t = replicate 200 CHR ''a'' \<and> t_Content t = replicate 1000 CHR ''b''"
    by (simp add: i a)
  from w2 [THEN conjunct2, THEN conjunct2, THEN conjunct1] g
  have 5: "snd (UpsertTask 5 opened (long_task 201 1000)) = Inl ErrTaskTitleTooLong"
    by (simp add: i b)
  from w3 [THEN conjunct2, THEN conjunct2, THEN conjunct1] g
  have 6: "snd (UpsertTask 5 opened (long_task 200 1001)) = Inl ErrTaskContentTooLong"
    by (simp add: i c)
  from 1 l 2 3 4 5 6 show ?thesis by (intro conjI)
qed

section \<open>C6: the bootstrap of \<^verbatim>\<open>Open\<close>\<close>

lemma insert_or_ignore_eq:
  "insert_or_ignore_setting s k v =
     (if k \<in> set (map fst (settings s)) then sent (Exec ''INSERT OR IGNORE INTO settings'') s
      else (sent (Exec ''INSERT OR IGNORE INTO settings'') s)\<lparr>settings := settings s @ [(k, v)]\<rparr>, Inr ())"
  by (simp add: insert_or_ignore_setting_def Let_def)

lemma map_of_insert_or_ignore:
  "map_of (settings (fst (insert_or_ignore_setting s k v))) k' =
     (case map_of (settings s) k' of Some w \<Rightarrow> Some w | None \<Rightarrow> if k' = k then Some v else None)"
proof (cases "k \<in> set (map fst (settings s))")
  case True
  then obtain w where "map_of (settings s) k = Some w"
    by (metis map_of_eq_None_iff not_Some_eq set_map)
  with True show ?thesis by (simp add: insert_or_ignore_eq split: option.splits)
next
  case False
  then have n: "k \<notin> fst ` set (settings s)" by simp
  then have "map_of (settings s) k = None" by (simp add: map_of_eq_None_iff)
  with map_of_append_new [OF n, of v k'] False show ?thesis
    by (auto simp add: insert_or_ignore_eq split: option.splits simp del: map_of_append)
qed

lemma initSettings_result:
  "snd (initSettings s kvs) = None
   \<and> groups (fst (initSettings s kvs)) = groups s \<and> groups_seq (fst (initSettings s kvs)) = groups_seq s
   \<and> tasks (fst (initSettings s kvs)) = tasks s \<and> tasks_seq (fst (initSettings s kvs)) = tasks_seq s"
proof (induction kvs arbitrary: s)
  case Nil
  show ?case by simp
next
  case (Cons kv kvs)
  obtain k v where kv: "kv = (k, v)" by (cases kv)
  define s1 where "s1 = fst (insert_or_ignore_setting s k v)"
  have i: "insert_or_ignore_setting s k v = (s1, Inr ())" by (simp add: insert_or_ignore_eq s1_def)
  have "initSettings s (kv # kvs) = initSettings s1 kvs" unfolding kv by (simp add: i)
  moreover have "groups s1 = groups s" "groups_seq s1 = groups_seq s" "tasks s1 = tasks s" "tasks_seq s1 = tasks_seq s"
    by (simp_all add: insert_or_ignore_eq s1_def)
  ultimately show ?case using Cons.IH [of s1] by simp
qed

lemma map_of_initSettings:
  "distinct (map fst kvs) \<Longrightarrow>
   map_of (settings (fst (initSettings s kvs))) k =
     (case map_of (settings s) k of Some w \<Rightarrow> Some w | None \<Rightarrow> map_of kvs k)"
proof (induction kvs arbitrary: s)
  case Nil
  show ?case by (simp split: option.splits)
next
  case (Cons kv kvs)
  obtain a v where kv: "kv = (a, v)" by (cases kv)
  define s1 where "s1 = fst (insert_or_ignore_setting s a v)"
  have i: "insert_or_ignore_setting s a v = (s1, Inr ())" by (simp add: insert_or_ignore_eq s1_def)
  have e: "initSettings s (kv # kvs) = initSettings s1 kvs" unfolding kv by (simp add: i)
  from Cons.prems kv have d: "distinct (map fst kvs)" and n: "a \<notin> fst ` set kvs" by auto
  from n have m: "map_of kvs a = None" by (simp add: map_of_eq_None_iff)
  have s1: "map_of (settings s1) k =
     (case map_of (settings s) k of Some w \<Rightarrow> Some w | None \<Rightarrow> if k = a then Some v else None)"
    unfolding s1_def by (rule map_of_insert_or_ignore)
  have "map_of (settings (fst (initSettings s1 kvs))) k =
     (case map_of (settings s) k of Some w \<Rightarrow> Some w | None \<Rightarrow> map_of ((a, v) # kvs) k)"
    unfolding Cons.IH [OF d] s1 using m by (auto split: option.splits)
  then show ?case unfolding e by (simp only: kv)
qed

lemma initSettings_same:
  "fst ` set kvs \<subseteq> fst ` set (settings s) \<Longrightarrow> settings (fst (initSettings s kvs)) = settings s"
proof (induction kvs arbitrary: s)
  case Nil
  show ?case by simp
next
  case (Cons kv kvs)
  obtain a v where kv: "kv = (a, v)" by (cases kv)
  define s1 where "s1 = fst (insert_or_ignore_setting s a v)"
  have i: "insert_or_ignore_setting s a v = (s1, Inr ())" by (simp add: insert_or_ignore_eq s1_def)
  have e: "initSettings s (kv # kvs) = initSettings s1 kvs" unfolding kv by (simp add: i)
  from Cons.prems kv have "a \<in> fst ` set (settings s)" by simp
  then have s1: "settings s1 = settings s" by (simp add: insert_or_ignore_eq s1_def)
  with Cons.prems have "fst ` set kvs \<subseteq> fst ` set (settings s1)" by simp
  from Cons.IH [OF this] s1 show ?case unfolding e by simp
qed

lemma distinct_defaults: "distinct (map fst defaults)"
  by (simp add: defaults_def)

lemma ensureDefaultGroup_some:
  "groups s \<noteq> [] \<Longrightarrow> ensureDefaultGroup now s = (sent (Query ''SELECT COUNT(1) FROM groups'') s, None)"
  by (simp add: ensureDefaultGroup_def count_groups_def)

lemma ensureDefaultGroup_none:
  assumes "groups s = []"
  shows "ensureDefaultGroup now s =
     ((sent (Exec ''INSERT INTO groups'') (sent (Query ''SELECT COUNT(1) FROM groups'') s))
        \<lparr>groups := [\<lparr>g_ID = groups_seq s + 1, g_Name = defaultName, g_CreatedAt = now, g_UpdatedAt = now\<rparr>],
         groups_seq := groups_seq s + 1\<rparr>, None)"
proof -
  let ?s1 = "sent (Query ''SELECT COUNT(1) FROM groups'') s"
  from assms have "defaultName \<notin> set (map g_Name (groups ?s1))" by simp
  from insert_group_ok [OF this, of now now] assms show ?thesis
    by (simp add: ensureDefaultGroup_def count_groups_def next_rowid_def)
qed

lemma ensureDefaultSettings_eq: "ensureDefaultSettings s = (fst (initSettings s defaults), None)"
  using initSettings_result [of s defaults] by (simp add: ensureDefaultSettings_def prod_eq_iff)

lemma Open_eq: "Open now s = ensureDefaultGroup now (fst (initSettings s defaults))"
  by (simp add: Open_def ensureDefaultSettings_eq)

lemma Open_groups: "groups (fst (Open now s)) \<noteq> []"
proof (cases "groups s = []")
  case True
  then have "groups (fst (initSettings s defaults)) = []" by (simp add: initSettings_result)
  from ensureDefaultGroup_none [OF this, of now] show ?thesis by (simp add: Open_eq)
next
  case False
  then have g: "groups (fst (initSettings s defaults)) \<noteq> []" by (simp add: initSettings_result)
  from ensureDefaultGroup_some [OF g, of now] False show ?thesis
    by (simp add: Open_eq initSettings_result)
qed

lemma Open_settings: "settings (fst (Open now s)) = settings (fst (initSettings s defaults))"
proof (cases "groups (fst (initSettings s defaults)) = []")
  case True
  from ensureDefaultGroup_none [OF True, of now] show ?thesis by (simp add: Open_eq)
next
  case False
  from ensureDefaultGroup_some [OF False, of now] show ?thesis by (simp add: Open_eq)
qed

lemma Open_keys: "fst ` set defaults \<subseteq> fst ` set (settings (fst (Open now s)))"
proof
  fix k assume "k \<in> fst ` set defaults"
  then obtain v where "map_of defaults k = Some v"
    by (metis map_of_eq_None_iff not_Some_eq)
  with map_of_initSettings [OF distinct_defaults, of s k]
  have "map_of (settings (fst (initSettings s defaults))) k \<noteq> None" by (simp split: option.splits)
  then show "k \<in> fst ` set (settings (fst (Open now s)))"
    unfolding Open_settings by (simp add: map_of_eq_None_iff)
qed

lemma Open_twice: "content (fst (Open now' (fst (Open now s)))) = content (fst (Open now s))"
proof -
  let ?s1 = "fst (Open now s)"
  let ?s2 = "fst (initSettings ?s1 defaults)"
  from initSettings_same [OF Open_keys] have st: "settings ?s2 = settings ?s1" .
  from Open_groups [of now s] have "groups ?s2 \<noteq> []" by (simp add: initSettings_result)
  from ensureDefaultGroup_some [OF this, of now'] have "fst (Open now' ?s1) = sent (Query ''SELECT COUNT(1) FROM groups'') ?s2"
    by (simp add: Open_eq)
  then show ?thesis using st by (simp add: content_def initSettings_result)
qed


text \<open>
  C6: with a group in the table \<^verbatim>\<open>ensureDefaultGroup\<close> only counts and inserts nothing;
  \<^verbatim>\<open>ensureDefaultSettings\<close> leaves every stored key with its value and gives an absent key its
  default, so a stored \<open>0\<close> under \<open>alwaysOnTop\<close>, whose default is \<open>1\<close>, stays; after \<^verbatim>\<open>Open\<close>
  there is a group (the groups there were, or the one default group), and a second \<^verbatim>\<open>Open\<close>
  leaves the tables as the first left them.
\<close>

theorem C6_bootstrap_idempotent:
  "(groups s \<noteq> [] \<longrightarrow>
      ensureDefaultGroup now s = (sent (Query ''SELECT COUNT(1) FROM groups'') s, None))
   \<and> map_of (settings (fst (ensureDefaultSettings s))) k
        = (case map_of (settings s) k of Some w \<Rightarrow> Some w | None \<Rightarrow> map_of defaults k)
   \<and> (map_of (settings s) ''alwaysOnTop'' = Some ''0'' \<longrightarrow>
        map_of (settings (fst (Open now s))) ''alwaysOnTop'' = Some ''0'')
   \<and> groups (fst (Open now s)) \<noteq> []
   \<and> (groups s = [] \<longrightarrow> map g_Name (groups (fst (Open now s))) = [defaultName])
   \<and> (groups s \<noteq> [] \<longrightarrow> groups (fst (Open now s)) = groups s)
   \<and> content (fst (Open now' (fst (Open now s)))) = content (fst (Open now s))"
proof -
  have 1: "groups s \<noteq> [] \<longrightarrow>
      ensureDefaultGroup now s = (sent (Query ''SELECT COUNT(1) FROM groups'') s, None)"
    by (simp add: ensureDefaultGroup_some)
  have m: "map_of (settings (fst (initSettings s defaults))) k
        = (case map_of (settings s) k of Some w \<Rightarrow> Some w | None \<Rightarrow> map_of defaults k)" for k
    by (rule map_of_initSettings [OF distinct_defaults])
  then have 2: "map_of (settings (fst (ensureDefaultSettings s))) k
        = (case map_of (settings s) k of Some w \<Rightarrow> Some w | None \<Rightarrow> map_of defaults k)"
    by (simp add: ensureDefaultSettings_def)
  have 3: "map_of (settings s) ''alwaysOnTop'' = Some ''0'' \<longrightarrow>
        map_of (settings (fst (Open now s))) ''alwaysOnTop'' = Some ''0''"
    unfolding Open_settings m by simp
  have 4: "groups (fst (Open now s)) \<noteq> []" by (rule Open_groups)
  have 5: "groups s = [] \<longrightarrow> map g_Name (groups (fst (Open now s))) = [defaultName]"
  proof
    assume "groups s = []"
    then have "groups (fst (initSettings s defaults)) = []" by (simp add: initSettings_result)
    from ensureDefaultGroup_none [OF this, of now]
    show "map g_Name (groups (fst (Open now s))) = [defaultName]" by (simp add: Open_eq)
  qed
  have 6: "groups s \<noteq> [] \<longrightarrow> groups (fst (Open now s)) = groups s"
  proof
    assume "groups s \<noteq> []"
    then have "groups (fst (initSettings s defaults)) \<noteq> []" by (simp add: initSettings_result)
    from ensureDefaultGroup_some [OF this, of now]
    show "groups (fst (Open now s)) = groups s" by (simp add: Open_eq initSettings_result)
  qed
  have 7: "content (fst (Open now' (fst (Open now s)))) = content (fst (Open now s))"
    by (rule Open_twice)
  from 1 2 3 4 5 6 7 show ?thesis by (intro conjI)
qed

definition user_store :: store where
  "user_store = empty_store\<lparr>groups := [\<lparr>g_ID = 4, g_Name = ''Work'', g_CreatedAt = 1, g_UpdatedAt = 1\<rparr>],
     groups_seq := 4, settings := [(''alwaysOnTop'', ''0'')]\<rparr>"

theorem C6_bootstrap_idempotent_witness:
  "groups user_store \<noteq> []
   \<and> snd (ensureDefaultGroup 9 user_store) = None
   \<and> groups (fst (ensureDefaultGroup 9 user_store)) = groups user_store
   \<and> map_of (settings user_store) ''alwaysOnTop'' = Some ''0''
   \<and> map_of (settings (fst (Open 9 user_store))) ''alwaysOnTop'' = Some ''0''
   \<and> map_of (settings (fst (ensureDefaultSettings user_store))) ''viewMode'' = Some ''cards''
   \<and> groups (fst (Open 9 user_store)) = groups user_store
   \<and> groups empty_store = []
   \<and> map g_Name (groups (fst (Open 9 empty_store))) = [defaultName]
   \<and> map g_Name (groups (fst (Open 10 (fst (Open 9 empty_store))))) = [defaultName]"
proof -
  have a: "groups user_store \<noteq> []" by code_simp
  have b: "map_of (settings user_store) ''alwaysOnTop'' = Some ''0''" by code_simp
  have c: "map_of (settings user_store) ''viewMode'' = None" "map_of defaults ''viewMode'' = Some ''cards''"
    by code_simp+
  have e: "groups empty_store = []" by code_simp
  note w = C6_bootstrap_idempotent [of user_store 9 "''viewMode''" 10]
  note v = C6_bootstrap_idempotent [of empty_store 9 "''viewMode''" 10]
  from w [THEN conjunct1] a have 1: "ensureDefaultGroup 9 user_store = (sent (Query ''SELECT COUNT(1) FROM groups'') user_store, None)"
    by simp
  from w [THEN conjunct2, THEN conjunct1] c
  have 2: "map_of (settings (fst (ensureDefaultSettings user_store))) ''viewMode'' = Some ''cards''" by simp
  from w [THEN conjunct2, THEN conjunct2, THEN conjunct1] b
  have 3: "map_of (settings (fst (Open 9 user_store))) ''alwaysOnTop'' = Some ''0''" by simp
  from w a have 4: "groups (fst (Open 9 user_store)) = groups user_store" by (elim conjE) simp
  from v e have 5: "map g_Name (groups (fst (Open 9 empty_store))) = [defaultName]" by (elim conjE) simp
  from v have "content (fst (Open 10 (fst (Open 9 empty_store)))) = content (fst (Open 9 empty_store))"
    by (elim conjE)
  then have "groups (fst (Open 10 (fst (Open 9 empty_store)))) = groups (fst (Open 9 empty_store))"
    by (simp add: content_def)
  with 5 have 6: "map g_Name (groups (fst (Open 10 (fst (Open 9 empty_store))))) = [defaultName]" by simp
  from a 1 b 3 2 4 e 5 6 show ?thesis by simp
qed

section \<open>C5: the order of \<^verbatim>\<open>ListTasks\<close>\<close>

text \<open>The order of the listing: \<open>a\<close> comes before \<open>b\<close> when it was updated later, or at the
  same time and has the larger id.\<close>

definition newer :: "Task \<Rightarrow> Task \<Rightarrow> bool" where
  "newer a b = (t_UpdatedAt b < t_UpdatedAt a \<or> t_UpdatedAt a = t_UpdatedAt b \<and> t_ID b < t_ID a)"

definition as_task :: "task_row \<Rightarrow> Task" where
  "as_task r = scanned r (r_status r)"

lemma scanTasks_valid:
  "list_all (\<lambda>r. valid_status (r_status r)) rows \<Longrightarrow> scanTasks rows = Inr (map as_task rows)"
  by (induction rows) (simp_all add: ParseStatus_eq as_task_def)

lemma ListTasks_eq: "ListTasks s = (sent (Query ''SELECT FROM tasks ORDER BY updated_at DESC, id DESC'') s,
   scanTasks (sort_key order_key (tasks s)))"
  by (simp add: ListTasks_def select_tasks_def)

lemma order_key_le:
  "(order_key a \<le> order_key b) =
     (r_updated_at b < r_updated_at a \<or> r_updated_at a = r_updated_at b \<and> r_id b \<le> r_id a)"
  by (auto simp add: order_key_def less_eq_prod_def)

lemma sorted_wrt_distinct:
  "sorted_wrt P xs \<Longrightarrow> distinct (map f xs) \<Longrightarrow> sorted_wrt (\<lambda>a b. P a b \<and> f a \<noteq> f b) xs"
  by (induction xs) auto

lemma sorted_rows:
  assumes "distinct (map r_id rows)"
  shows "sorted_wrt newer (map as_task (sort_key order_key rows))"
proof -
  let ?xs = "sort_key order_key rows"
  have "sorted (map order_key ?xs)" by (rule sorted_sort_key)
  then have 1: "sorted_wrt (\<lambda>a b. order_key a \<le> order_key b) ?xs"
    by (simp add: sorted_map)
  have "mset (map r_id ?xs) = mset (map r_id rows)" by simp
  with assms have "distinct (map r_id ?xs)" by (metis mset_eq_imp_distinct_iff)
  from sorted_wrt_distinct [OF 1 this]
  have "sorted_wrt (\<lambda>a b. newer (as_task a) (as_task b)) ?xs"
    by (rule sorted_wrt_mono_rel [rotated])
      (auto simp add: order_key_le newer_def as_task_def scanned_def)
  then show ?thesis by (simp add: sorted_wrt_map)
qed

lemma ListTasks_sorted:
  assumes "store_inv s"
  shows "snd (ListTasks s) = Inr (map as_task (sort_key order_key (tasks s)))
       \<and> sorted_wrt newer (map as_task (sort_key order_key (tasks s)))
       \<and> mset (map as_task (sort_key order_key (tasks s))) = mset (map as_task (tasks s))"
proof -
  from assms have d: "distinct (map r_id (tasks s))"
    and v: "list_all (\<lambda>r. valid_status (r_status r)) (tasks s)"
    by (simp_all add: store_inv_def list_all_iff)
  from v have "list_all (\<lambda>r. valid_status (r_status r)) (sort_key order_key (tasks s))"
    by (simp add: list_all_iff)
  from scanTasks_valid [OF this] sorted_rows [OF d] show ?thesis
    by (simp add: ListTasks_eq)
qed

lemma sort_key3:
  fixes f :: "'a \<Rightarrow> 'b :: linorder"
  assumes "f y < f z" "f z < f x"
  shows "sort_key f [x, y, z] = [y, z, x]"
proof -
  from assms have "f y \<le> f z" "\<not> f x \<le> f y" "\<not> f x \<le> f z" by auto
  then show ?thesis by (simp add: sort_key_def)
qed

lemma UpsertTask_Inr_valid:
  assumes "snd (UpsertTask now s req) = Inr t"
  shows "valid_task s req"
proof (rule ccontr)
  assume "\<not> valid_task s req"
  then consider "t_GroupID req \<le> 0"
    | "0 < t_GroupID req" "\<not> has_group s (t_GroupID req)"
    | "0 < t_GroupID req" "has_group s (t_GroupID req)" "TrimSpace (t_Title req) = []"
    | "0 < t_GroupID req" "has_group s (t_GroupID req)" "TrimSpace (t_Title req) \<noteq> []"
      "maxTaskTitleRunes < RuneCountInString (TrimSpace (t_Title req))"
    | "0 < t_GroupID req" "has_group s (t_GroupID req)" "TrimSpace (t_Title req) \<noteq> []"
      "RuneCountInString (TrimSpace (t_Title req)) \<le> maxTaskTitleRunes"
      "maxTaskContentRunes < RuneCountInString (TrimSpace (t_Content req))"
    | "0 < t_GroupID req" "has_group s (t_GroupID req)" "TrimSpace (t_Title req) \<noteq> []"
      "RuneCountInString (TrimSpace (t_Title req)) \<le> maxTaskTitleRunes"
      "RuneCountInString (TrimSpace (t_Content req)) \<le> maxTaskContentRunes"
      "\<not> valid_status (t_Status req)"
    unfolding valid_task_def by linarith
  then show False
    using assms
    by cases (simp_all add: UpsertTask_no_group UpsertTask_missing_group UpsertTask_title_empty
        UpsertTask_title_long UpsertTask_content_long UpsertTask_bad_status)
qed

lemma as_task_new_row:
  "valid_status (t_Status req) \<Longrightarrow>
   as_task (new_row now i req) = (trimmed req)\<lparr>t_ID := i, t_CreatedAt := now, t_UpdatedAt := now\<rparr>"
  by (cases req) (simp add: as_task_def scanned_def new_row_def trimmed_def boolTo01Int_def)


lemma touched_last:
  assumes inv: "store_inv s" and e: "tasks s = []"
    and a: "UpsertTask t1 s a = (s1, Inr A)" "t_ID a = 0"
    and b: "UpsertTask t2 s1 b = (s2, Inr B)" "t_ID b = 0"
    and c: "UpsertTask t3 s2 c = (s3, Inr C)" "t_ID c = 0"
    and u: "UpsertTask t4 s3 b' = (s4, Inr B')" "t_ID b' = t_ID B"
    and t: "t1 \<le> t3" "t3 < t4"
  shows "snd (ListTasks s4) = Inr [B', C, A]"
proof -
  define q where "q = tasks_seq s"
  from inv have q0: "0 \<le> q" by (simp add: store_inv_def q_def)
  define rA where "rA = new_row t1 (q + 1) a"
  define rB where "rB = new_row t2 (q + 2) b"
  define rC where "rC = new_row t3 (q + 3) c"
  from a(1) have va: "valid_task s a" using UpsertTask_Inr_valid [of t1 s a A] by simp
  from UpsertTask_insert [OF va a(2), of t1] a(1) e
  have s1: "tasks s1 = [rA]" "tasks_seq s1 = q + 1"
    and A: "A = (trimmed a)\<lparr>t_ID := q + 1, t_CreatedAt := t1, t_UpdatedAt := t1\<rparr>"
    by (auto simp add: next_rowid_def q_def rA_def)
  from b(1) have vb: "valid_task s1 b" using UpsertTask_Inr_valid [of t2 s1 b B] by simp
  from UpsertTask_insert [OF vb b(2), of t2] b(1) s1
  have s2: "tasks s2 = [rA, rB]" "tasks_seq s2 = q + 2"
    and B: "B = (trimmed b)\<lparr>t_ID := q + 2, t_CreatedAt := t2, t_UpdatedAt := t2\<rparr>"
    by (auto simp add: next_rowid_def rA_def rB_def new_row_def)
  from c(1) have vc: "valid_task s2 c" using UpsertTask_Inr_valid [of t3 s2 c C] by simp
  from UpsertTask_insert [OF vc c(2), of t3] c(1) s2
  have s3: "tasks s3 = [rA, rB, rC]"
    and C: "C = (trimmed c)\<lparr>t_ID := q + 3, t_CreatedAt := t3, t_UpdatedAt := t3\<rparr>"
    by (auto simp add: next_rowid_def rA_def rB_def rC_def new_row_def)
  from u(1) have vu: "valid_task s3 b'" using UpsertTask_Inr_valid [of t4 s3 b' B'] by simp
  from u(2) B have i: "t_ID b' = q + 2" by simp
  with q0 have nz: "t_ID b' \<noteq> 0" by simp
  have ids: "r_id rA = q + 1" "r_id rB = q + 2" "r_id rC = q + 3"
    by (simp_all add: rA_def rB_def rC_def new_row_def)
  from s3 have m: "rB \<in> set (tasks s3)" by simp
  from ids i have e2: "r_id rB = t_ID b'" by simp
  from s3 ids have d: "distinct (map r_id (tasks s3))" by simp
  define rB' where "rB' = set_row t4 b' rB"
  from UpsertTask_update [OF vu nz m e2 d, of t4] u(1) s3 ids i
  have s4: "tasks s4 = [rA, rB', rC]" and B': "B' = scanned rB' (t_Status b')"
    by (auto simp add: set_row_def rB'_def)
  have k: "order_key rA = (- t1, - (q + 1))" "order_key rB' = (- t4, - (q + 2))" "order_key rC = (- t3, - (q + 3))"
    using i by (simp_all add: order_key_def rA_def rB_def rB'_def rC_def new_row_def set_row_def)
  from t have "order_key rB' < order_key rC" "order_key rC < order_key rA"
    unfolding k by (auto simp add: less_prod_def)
  from sort_key3 [of order_key rB' rC rA, OF this] have sorted: "sort_key order_key (tasks s4) = [rB', rC, rA]"
    by (simp only: s4)
  from va vc vu have st: "valid_status (t_Status a)" "valid_status (t_Status c)" "valid_status (t_Status b')"
    by (simp_all add: valid_task_def)
  have st': "r_status rA = t_Status a" "r_status rC = t_Status c" "r_status rB' = t_Status b'"
    using i by (simp_all add: rA_def rB_def rB'_def rC_def new_row_def set_row_def)
  from st st' have "list_all (\<lambda>r. valid_status (r_status r)) [rB', rC, rA]" by simp
  from scanTasks_valid [OF this] have "snd (ListTasks s4) = Inr [as_task rB', as_task rC, as_task rA]"
    by (simp add: ListTasks_eq sorted)
  moreover have "as_task rB' = B'" by (simp add: as_task_def B' st')
  moreover have "as_task rC = C" unfolding rC_def C by (rule as_task_new_row [OF st(2)])
  moreover have "as_task rA = A" unfolding rA_def A by (rule as_task_new_row [OF st(1)])
  ultimately show ?thesis by simp
qed


text \<open>Three tasks \<open>A\<close>, \<open>B\<close>, \<open>C\<close> inserted in this order into the first group of a new
  store at the times \<open>t1\<close>, \<open>t2\<close>, \<open>t3\<close>, and then \<open>B\<close> updated at \<open>t4\<close>.\<close>

definition titled :: "string \<Rightarrow> Task" where
  "titled x = \<lparr>t_ID = 0, t_GroupID = 1, t_Title = x, t_Content = [], t_Status = ''todo'',
     t_Important = False, t_Urgent = False, t_CreatedAt = 0, t_UpdatedAt = 0\<rparr>"

definition three_tasks :: "int \<Rightarrow> int \<Rightarrow> int \<Rightarrow> store" where
  "three_tasks t1 t2 t3 =
     fst (UpsertTask t3 (fst (UpsertTask t2 (fst (UpsertTask t1 opened (titled ''A''))) (titled ''B'')))
       (titled ''C''))"

definition touched :: "int \<Rightarrow> int \<Rightarrow> int \<Rightarrow> int \<Rightarrow> store" where
  "touched t1 t2 t3 t4 = fst (UpsertTask t4 (three_tasks t1 t2 t3) ((titled ''B'')\<lparr>t_ID := 2, t_Status := ''done''\<rparr>))"

text \<open>
  C5, as stated, fails in its example: when the update of \<open>B\<close> carries the same millisecond as
  the insertion of \<open>C\<close> (here all four operations carry 1000), \<open>B\<close> does not come first; the
  listing is \<open>C\<close>, \<open>B\<close>, \<open>A\<close>, by the ids.
\<close>

theorem C5_counterexample:
  "map r_title (tasks (three_tasks 1000 1000 1000)) = [''A'', ''B'', ''C'']
   \<and> map r_id (tasks (three_tasks 1000 1000 1000)) = [1, 2, 3]
   \<and> map_sum id t_Status (snd (UpsertTask 1000 (three_tasks 1000 1000 1000) ((titled ''B'')\<lparr>t_ID := 2, t_Status := ''done''\<rparr>)))
        = Inr ''done''
   \<and> map_sum id (map t_Title) (snd (ListTasks (touched 1000 1000 1000 1000))) = Inr [''C'', ''B'', ''A'']"
  by code_simp

text \<open>
  C5, amended: in a reachable store \<^verbatim>\<open>ListTasks\<close> returns the stored tasks, each once, later
  updates first and, among equal times, larger ids first. After inserting \<open>A\<close>, \<open>B\<close>, \<open>C\<close> in
  this order into a store without tasks and then updating \<open>B\<close>, it returns \<open>B\<close>, \<open>C\<close>, \<open>A\<close>
  provided the update is stamped later than the insertion of \<open>C\<close> and that one not earlier
  than the insertion of \<open>A\<close>.
\<close>

theorem C5_list_order:
  assumes "reachable s"
  shows "(\<exists>ts. snd (ListTasks s) = Inr ts \<and> sorted_wrt newer ts \<and> mset ts = mset (map as_task (tasks s)))
       \<and> (tasks s = []
           \<and> UpsertTask t1 s a = (s1, Inr A) \<and> t_ID a = 0
           \<and> UpsertTask t2 s1 b = (s2, Inr B) \<and> t_ID b = 0
           \<and> UpsertTask t3 s2 c = (s3, Inr C) \<and> t_ID c = 0
           \<and> UpsertTask t4 s3 b' = (s4, Inr B') \<and> t_ID b' = t_ID B
           \<and> t1 \<le> t3 \<and> t3 < t4 \<longrightarrow>
           snd (ListTasks s4) = Inr [B', C, A])"
proof -
  from reachable_inv [OF assms] have inv: "store_inv s" .
  from ListTasks_sorted [OF inv]
  have 1: "\<exists>ts. snd (ListTasks s) = Inr ts \<and> sorted_wrt newer ts \<and> mset ts = mset (map as_task (tasks s))"
    by blast
  have 2: "tasks s = []
           \<and> UpsertTask t1 s a = (s1, Inr A) \<and> t_ID a = 0
           \<and> UpsertTask t2 s1 b = (s2, Inr B) \<and> t_ID b = 0
           \<and> UpsertTask t3 s2 c = (s3, Inr C) \<and> t_ID c = 0
           \<and> UpsertTask t4 s3 b' = (s4, Inr B') \<and> t_ID b' = t_ID B
           \<and> t1 \<le> t3 \<and> t3 < t4 \<longrightarrow>
           snd (ListTasks s4) = Inr [B', C, A]"
    using touched_last [OF inv, of t1 a s1 A t2 b s2 B t3 c s3 C t4 b' s4 B'] by blast
  from 1 2 show ?thesis by (rule conjI)
qed

theorem C5_list_order_witness:
  "reachable opened \<and> tasks opened = [] \<and> (1000 :: int) \<le> 1002 \<and> (1002 :: int) < 1003
   \<and> map_sum id (map t_Title) (snd (ListTasks (touched 1000 1001 1002 1003))) = Inr [''B'', ''C'', ''A'']
   \<and> map_sum id (map t_UpdatedAt) (snd (ListTasks (touched 1000 1001 1002 1003))) = Inr [1003, 1002, 1000]"
proof -
  let ?A = "\<lparr>t_ID = 1, t_GroupID = 1, t_Title = ''A'', t_Content = [], t_Status = ''todo'',
     t_Important = False, t_Urgent = False, t_CreatedAt = 1000, t_UpdatedAt = 1000\<rparr>"
  let ?B = "\<lparr>t_ID = 2, t_GroupID = 1, t_Title = ''B'', t_Content = [], t_Status = ''todo'',
     t_Important = False, t_Urgent = False, t_CreatedAt = 1001, t_UpdatedAt = 1001\<rparr>"
  let ?C = "\<lparr>t_ID = 3, t_GroupID = 1, t_Title = ''C'', t_Content = [], t_Status = ''todo'',
     t_Important = False, t_Urgent = False, t_CreatedAt = 1002, t_UpdatedAt = 1002\<rparr>"
  let ?B' = "\<lparr>t_ID = 2, t_GroupID = 1, t_Title = ''B'', t_Content = [], t_Status = ''done'',
     t_Important = False, t_Urgent = False, t_CreatedAt = 1001, t_UpdatedAt = 1003\<rparr>"
  let ?s1 = "fst (UpsertTask 1000 opened (titled ''A''))"
  let ?s2 = "fst (UpsertTask 1001 ?s1 (titled ''B''))"
  let ?s3 = "fst (UpsertTask 1002 ?s2 (titled ''C''))"
  let ?b' = "(titled ''B'')\<lparr>t_ID := 2, t_Status := ''done''\<rparr>"
  let ?s4 = "fst (UpsertTask 1003 ?s3 ?b')"
  have r: "reachable opened" unfolding opened_def by (intro reachable.intros)
  have e: "tasks opened = []" by code_simp
  have a: "UpsertTask 1000 opened (titled ''A'') = (?s1, Inr ?A)" by code_simp
  have b: "UpsertTask 1001 ?s1 (titled ''B'') = (?s2, Inr ?B)" by code_simp
  have c: "UpsertTask 1002 ?s2 (titled ''C'') = (?s3, Inr ?C)" by code_simp
  have u: "UpsertTask 1003 ?s3 ?b' = (?s4, Inr ?B')" by code_simp
  have i: "t_ID (titled x) = 0" "t_ID ?b' = t_ID ?B" for x by (simp_all add: titled_def)
  have t: "(1000 :: int) \<le> 1002" "(1002 :: int) < 1003" by simp_all
  from C5_list_order [OF r, THEN conjunct2, of 1000 "titled ''A''" ?s1 ?A 1001 "titled ''B''" ?s2 ?B
      1002 "titled ''C''" ?s3 ?C 1003 ?b' ?s4 ?B'] e a b c u i t
  have "snd (ListTasks ?s4) = Inr [?B', ?C, ?A]" by blast
  moreover have "?s4 = touched 1000 1001 1002 1003" by (simp add: touched_def three_tasks_def)
  ultimately have l: "snd (ListTasks (touched 1000 1001 1002 1003)) = Inr [?B', ?C, ?A]" by simp
  from r e t show ?thesis unfolding l by simp
qed

end
